theory Spec2Isabelle
  imports Complex_Main "HOL-Library.Log_Nat"
begin

section \<open>Python arithmetic used by \<^verbatim>\<open>blenderengine.PY\<close>\<close>

text \<open>
  The program computes with Python \<^verbatim>\<open>int\<close> (unbounded, modelled by \<^typ>\<open>int\<close>; Python's
  \<^verbatim>\<open>divmod\<close> floors like \<^term>\<open>(div)\<close> and \<^term>\<open>(mod)\<close> on \<^typ>\<open>int\<close>) and with Python
  \<^verbatim>\<open>float\<close>, an IEEE 754 binary64 number. A finite binary64 value is a rational number, so
  floats are modelled by \<^typ>\<open>rat\<close>, and every float operation is the exact operation followed
  by rounding to the nearest binary64 value, ties to the even significand.
  An exception is a value of \<open>py_error\<close>.
\<close>

datatype py_error = ZeroDivisionError | OverflowError | IndexError

text \<open>\<open>binade x\<close> is the exponent \<open>e\<close> with \<open>2\<^sup>e \<le> \<bar>x\<bar> < 2\<^sup>e\<^sup>+\<^sup>1\<close> (for \<open>x \<noteq> 0\<close>).\<close>

definition binade :: "rat \<Rightarrow> int" where
  "binade x =
     (if 1 \<le> \<bar>x\<bar> then bitlen \<lfloor>\<bar>x\<bar>\<rfloor> - 1 else - bitlen (\<lceil>1 / \<bar>x\<bar>\<rceil> - 1))"

text \<open>
  The spacing of binary64 numbers around \<open>x\<close>: 53 significant bits, and the fixed spacing
  \<open>2\<^sup>-\<^sup>1\<^sup>0\<^sup>7\<^sup>4\<close> of the subnormal range below \<open>2\<^sup>-\<^sup>1\<^sup>0\<^sup>2\<^sup>2\<close>.
\<close>

definition ulp :: "rat \<Rightarrow> rat" where
  "ulp x = 2 powi (max (binade x) (- 1022) - 52)"

definition round_half_even :: "rat \<Rightarrow> int" where
  "round_half_even r =
     (let f = \<lfloor>r\<rfloor>; d = r - of_int f in
      if d < 1 / 2 then f else if 1 / 2 < d then f + 1 else if even f then f else f + 1)"

text \<open>
  Rounding to binary64. Python raises \<^verbatim>\<open>OverflowError\<close> when an integer true division or the
  conversion of an integer reaches the overflow threshold \<open>2\<^sup>1\<^sup>0\<^sup>2\<^sup>4\<close>, and the model does so
  too (\<open>overflows\<close> below). An operation on two floats that overflows gives an infinity. The
  model has no value for it: the one place where the program inspects such a result, \<^verbatim>\<open>int\<close>
  of the scaled resolution, raises \<^verbatim>\<open>OverflowError\<close> there; the other float operands are
  quotients below \<open>1\<close>, their sums, and the ratio of the lens to the sensor width.
\<close>

definition rnd :: "rat \<Rightarrow> rat" where
  "rnd x = (if x = 0 then 0 else of_int (round_half_even (x / ulp x)) * ulp x)"

text \<open>A rounded result of magnitude \<open>2\<^sup>1\<^sup>0\<^sup>2\<^sup>4\<close> or more is not a finite binary64 number.\<close>

definition overflows :: "rat \<Rightarrow> bool" where
  "overflows r = (r \<noteq> 0 \<and> 1024 \<le> binade r)"

text \<open>\<^verbatim>\<open>a / b\<close> on two Python ints: the correctly rounded quotient.\<close>

definition int_truediv :: "(rat \<Rightarrow> rat) \<Rightarrow> int \<Rightarrow> int \<Rightarrow> py_error + rat" where
  "int_truediv fl a b =
     (if b = 0 then Inl ZeroDivisionError
      else let r = fl (of_int a / of_int b) in
        if overflows r then Inl OverflowError else Inr r)"

section \<open>The sequence generator \<^verbatim>\<open>corput\<close> (lines 8--15)\<close>

text \<open>
  \<^verbatim>\<open>
  def corput(n, base):
      q, denom = 0, 1
      while n:
          denom *= base
          n, remainder = divmod(n, base)
          q += remainder / denom
      return q - 0.5
  \<close>
  The \<^verbatim>\<open>while\<close> loop need not terminate, so the loop is a partial function: \<open>None\<close> is a run
  that never returns, \<open>Some (Inl e)\<close> a run that raises \<open>e\<close>, \<open>Some (Inr q)\<close> a run that leaves the
  loop with the value \<open>q\<close>. The parameter \<open>fl\<close> is the rounding applied to the result of each float
  operation: the program runs with \<open>fl = rnd\<close>; \<open>fl = id\<close> is the same loop in exact arithmetic.
\<close>

partial_function (option)
  corput_loop :: "(rat \<Rightarrow> rat) \<Rightarrow> int \<Rightarrow> int \<Rightarrow> rat \<Rightarrow> int \<Rightarrow> (py_error + rat) option"
where
  "corput_loop fl n base q denom =
     (if n \<noteq> 0 then
        (let denom' = denom * base in
         if base = 0 then Some (Inl ZeroDivisionError)
         else
           (let n' = n div base; remainder = n mod base in
            case int_truediv fl remainder denom' of
              Inl e \<Rightarrow> Some (Inl e)
            | Inr t \<Rightarrow> corput_loop fl n' base (fl (q + t)) denom'))
      else Some (Inr q))"

declare corput_loop.simps [code]

definition corput_with :: "(rat \<Rightarrow> rat) \<Rightarrow> int \<Rightarrow> int \<Rightarrow> (py_error + rat) option" where
  "corput_with fl n base =
     (case corput_loop fl n base 0 1 of
        None \<Rightarrow> None
      | Some (Inl e) \<Rightarrow> Some (Inl e)
      | Some (Inr q) \<Rightarrow> Some (Inr (fl (q - 1 / 2))))"

definition corput :: "int \<Rightarrow> int \<Rightarrow> (py_error + rat) option" where
  "corput n base = corput_with rnd n base"

definition corput_exact :: "int \<Rightarrow> int \<Rightarrow> (py_error + rat) option" where
  "corput_exact n base = corput_with id n base"

text \<open>
  The Van der Corput value as the specification words it: the sum over the base-\<open>b\<close> digits
  \<open>d\<^sub>k = (n div b\<^sup>k) mod b\<close> of \<open>n\<close> (\<open>d\<^sub>0\<close> least significant) of \<open>d\<^sub>k / b\<^sup>k\<^sup>+\<^sup>1\<close>;
  \<open>floorlog b n\<close> is the number of base-\<open>b\<close> digits of \<open>n\<close>.
\<close>

definition vdc :: "int \<Rightarrow> int \<Rightarrow> rat" where
  "vdc n b = (\<Sum>k<floorlog (nat b) (nat n). of_int ((n div b ^ k) mod b) / of_int (b ^ (k + 1)))"

section \<open>Further Python operations\<close>

text \<open>Sequencing of computations that may raise.\<close>

definition bind_err :: "py_error + 'a \<Rightarrow> ('a \<Rightarrow> py_error + 'b) \<Rightarrow> py_error + 'b" where
  "bind_err m f = (case m of Inl e \<Rightarrow> Inl e | Inr v \<Rightarrow> f v)"

text \<open>Sequencing of computations that may raise or run forever.\<close>

definition bind_run ::
  "(py_error + 'a) option \<Rightarrow> ('a \<Rightarrow> (py_error + 'b) option) \<Rightarrow> (py_error + 'b) option" where
  "bind_run m f = (case m of None \<Rightarrow> None | Some (Inl e) \<Rightarrow> Some (Inl e) | Some (Inr v) \<Rightarrow> f v)"

text \<open>
  The conversion of an int operand in a mixed int/float operation: correctly rounded, and
  \<^verbatim>\<open>OverflowError\<close> when the int is too large for a float.
\<close>

definition float_of_int :: "int \<Rightarrow> py_error + rat" where
  "float_of_int i = (let r = rnd (of_int i) in if overflows r then Inl OverflowError else Inr r)"

text \<open>\<^verbatim>\<open>a / b\<close> on two floats.\<close>

definition float_truediv :: "rat \<Rightarrow> rat \<Rightarrow> py_error + rat" where
  "float_truediv a b = (if b = 0 then Inl ZeroDivisionError else Inr (rnd (a / b)))"

text \<open>\<^verbatim>\<open>a / i\<close> and \<^verbatim>\<open>i - a\<close> with a float \<open>a\<close> and an int \<open>i\<close>.\<close>

definition float_div_int :: "rat \<Rightarrow> int \<Rightarrow> py_error + rat" where
  "float_div_int a i = bind_err (float_of_int i) (\<lambda>f. float_truediv a f)"

definition int_sub_float :: "int \<Rightarrow> rat \<Rightarrow> py_error + rat" where
  "int_sub_float i a = bind_err (float_of_int i) (\<lambda>f. Inr (rnd (f - a)))"

text \<open>\<^verbatim>\<open>int(x)\<close> on a float truncates towards zero.\<close>

definition py_int :: "rat \<Rightarrow> int" where
  "py_int x = (if 0 \<le> x then \<lfloor>x\<rfloor> else \<lceil>x\<rceil>)"

text \<open>
  Python list indexing: an index from \<open>-len\<close> to \<open>len - 1\<close> names a position (the negative
  ones count from the end), any other index raises \<^verbatim>\<open>IndexError\<close>.
\<close>

definition list_index :: "'a list \<Rightarrow> int \<Rightarrow> nat option" where
  "list_index xs i =
     (if 0 \<le> i \<and> i < int (length xs) then Some (nat i)
      else if i < 0 \<and> - int (length xs) \<le> i then Some (nat (int (length xs) + i))
      else None)"

text \<open>\<^verbatim>\<open>xs[i]\<close> and \<^verbatim>\<open>xs[i] = v\<close>.\<close>

definition list_getitem :: "'a list \<Rightarrow> int \<Rightarrow> py_error + 'a" where
  "list_getitem xs i = (case list_index xs i of None \<Rightarrow> Inl IndexError | Some k \<Rightarrow> Inr (xs ! k))"

definition list_setitem :: "'a list \<Rightarrow> int \<Rightarrow> 'a \<Rightarrow> py_error + 'a list" where
  "list_setitem xs i v =
     (case list_index xs i of None \<Rightarrow> Inl IndexError | Some k \<Rightarrow> Inr (xs[k := v]))"

text \<open>\<^verbatim>\<open>range(n)\<close>, empty for \<open>n \<le> 0\<close>.\<close>

definition py_range :: "int \<Rightarrow> int list" where
  "py_range n = map int [0..<nat n]"

text \<open>
  A \<^verbatim>\<open>for\<close> loop over a list: the body updates the state and may raise, which ends the loop
  with the state reached so far.
\<close>

fun for_loop :: "('i \<Rightarrow> 's \<Rightarrow> py_error option \<times> 's) \<Rightarrow> 'i list \<Rightarrow> 's \<Rightarrow> py_error option \<times> 's" where
  "for_loop body [] st = (None, st)"
| "for_loop body (i # is) st =
     (case body i st of
        (None, st') \<Rightarrow> for_loop body is st'
      | (Some e, st') \<Rightarrow> (Some e, st'))"

section \<open>The scene and the host library\<close>

text \<open>
  \<^verbatim>\<open>scene.ray_cast\<close> belongs to the host application. It returns the tuple
  \<^verbatim>\<open>(result, location, normal, index, object, matrix)\<close>. Vectors, objects and matrices of
  the host are values of the type parameters \<open>'v\<close>, \<open>'o\<close> and \<open>'m\<close>, Euler rotations of \<open>'e\<close>.
\<close>

type_synonym ('v, 'o, 'm) hit = "bool \<times> 'v \<times> 'v \<times> int \<times> 'o \<times> 'm"

text \<open>The fields of \<^verbatim>\<open>depsgraph.scene\<close> that \<^verbatim>\<open>render\<close> reads.\<close>

record ('v, 'e, 'o, 'm) scene =
  resolution_x :: int
  resolution_y :: int
  resolution_percentage :: int
  camera_lens :: rat
  camera_sensor_width :: rat
  camera_location :: 'v
  camera_rotation_euler :: 'e
  scene_ray_cast :: "'v \<Rightarrow> 'v \<Rightarrow> ('v, 'o, 'm) hit"

text \<open>
  The operations of the host's \<^verbatim>\<open>mathutils.Vector\<close> that \<^verbatim>\<open>render\<close> calls: the constructor
  from three floats, \<^verbatim>\<open>rotate\<close> (in place in the source, here returning the rotated vector)
  and \<^verbatim>\<open>normalized\<close>. Their code is not part of the repository; they are parameters.
\<close>

record ('v, 'e) mathutils =
  Vector :: "rat \<times> rat \<times> rat \<Rightarrow> 'v"
  rotate :: "'v \<Rightarrow> 'e \<Rightarrow> 'v"
  normalized :: "'v \<Rightarrow> 'v"

section \<open>\<^verbatim>\<open>ray_cast\<close> and \<^verbatim>\<open>RT_trace_ray\<close> (lines 17--31)\<close>

definition ray_cast :: "('v, 'e, 'o, 'm) scene \<Rightarrow> 'v \<Rightarrow> 'v \<Rightarrow> ('v, 'o, 'm) hit" where
  "ray_cast scene origin direction = scene_ray_cast scene origin direction"

text \<open>
  \<^verbatim>\<open>
  def RT_trace_ray(scene, ray_orig, ray_dir):
      has_hit, hit_loc, hit_norm, _, hit_obj, _ = ray_cast(scene, ray_orig, ray_dir)
      color = np.zeros(3)
      if not has_hit:
          return color
      return np.array([1, 0.0, 0.0])
  \<close>
  The result is an array of three floats, modelled as a triple.
\<close>

definition RT_trace_ray :: "('v, 'e, 'o, 'm) scene \<Rightarrow> 'v \<Rightarrow> 'v \<Rightarrow> rat \<times> rat \<times> rat" where
  "RT_trace_ray scene ray_orig ray_dir =
     (case ray_cast scene ray_orig ray_dir of
        (has_hit, hit_loc, hit_norm, _, hit_obj, _) \<Rightarrow>
          let color = (0, 0, 0) in
          if \<not> has_hit then color else (1, 0, 0))"

section \<open>\<^verbatim>\<open>CustomRenderEngine.render\<close> (lines 55--103)\<close>

text \<open>
  Lines 57--63: \<^verbatim>\<open>scale = scene.render.resolution_percentage / 100.0\<close> and
  \<^verbatim>\<open>int(scene.render.resolution_x * scale)\<close>. The source evaluates the same two expressions
  first for \<^verbatim>\<open>self.size_x\<close>, \<^verbatim>\<open>self.size_y\<close> and again for \<^verbatim>\<open>width\<close>, \<^verbatim>\<open>height\<close>; the model
  evaluates each once. When the product overflows it is an infinity, and \<^verbatim>\<open>int\<close> of an infinity
  raises \<^verbatim>\<open>OverflowError\<close>.
\<close>

definition scaled_size :: "int \<Rightarrow> rat \<Rightarrow> py_error + int" where
  "scaled_size resolution scale =
     bind_err (float_of_int resolution) (\<lambda>r.
     let p = rnd (r * scale) in
     if overflows p then Inl OverflowError else Inr (py_int p))"

definition render_dims :: "('v, 'e, 'o, 'm) scene \<Rightarrow> py_error + int \<times> int" where
  "render_dims scene =
     bind_err (float_of_int (resolution_percentage scene)) (\<lambda>p.
     let scale = rnd (p / 100) in
     bind_err (scaled_size (resolution_x scene) scale) (\<lambda>w.
     bind_err (scaled_size (resolution_y scene) scale) (\<lambda>h.
     Inr (w, h))))"

text \<open>Lines 69--70: \<^verbatim>\<open>[corput(i, base) * d for i in range(sample_count)]\<close>.\<close>

primrec corput_list :: "int \<Rightarrow> rat \<Rightarrow> int list \<Rightarrow> (py_error + rat list) option" where
  "corput_list base d [] = Some (Inr [])"
| "corput_list base d (i # is) =
     bind_run (corput i base) (\<lambda>c.
     bind_run (corput_list base d is) (\<lambda>cs.
     Some (Inr (rnd (c * d) # cs))))"

text \<open>The values that lines 56--72 compute before the pixel loop.\<close>

record render_env =
  size_x :: int
  size_y :: int
  width :: int
  height :: int
  focal_length :: rat
  aspect_ratio :: rat
  corput_x :: "rat list"
  corput_y :: "rat list"

definition render_setup :: "nat \<Rightarrow> ('v, 'e, 'o, 'm) scene \<Rightarrow> (py_error + render_env) option" where
  "render_setup sample_count scene =
     bind_run (Some (render_dims scene)) (\<lambda>(w, h).
     bind_run (Some (float_truediv (camera_lens scene) (camera_sensor_width scene))) (\<lambda>focal_length.
     bind_run (Some (int_truediv rnd h w)) (\<lambda>aspect_ratio.
     bind_run (Some (int_truediv rnd 1 w)) (\<lambda>dx.
     bind_run (Some (float_div_int aspect_ratio h)) (\<lambda>dy.
     bind_run (corput_list 2 dx (py_range (int sample_count))) (\<lambda>corput_x.
     bind_run (corput_list 3 dy (py_range (int sample_count))) (\<lambda>corput_y.
     Some (Inr \<lparr>size_x = w, size_y = h, width = w, height = h,
       focal_length = focal_length, aspect_ratio = aspect_ratio,
       corput_x = corput_x, corput_y = corput_y\<rparr>))))))))"

text \<open>The state of the pixel loop: the buffer \<^verbatim>\<open>rect\<close> and the scene queries made so far.\<close>

record 'v render_state =
  rect :: "rat list list"
  queries :: "('v \<times> 'v) list"

text \<open>Line 84: \<^verbatim>\<open>screen_y = ((y - (height / 2)) / height) * aspect_ratio\<close>.\<close>

definition row_screen_y :: "render_env \<Rightarrow> int \<Rightarrow> py_error + rat" where
  "row_screen_y su y =
     bind_err (int_truediv rnd (height su) 2) (\<lambda>h2.
     bind_err (int_sub_float y h2) (\<lambda>d.
     bind_err (float_div_int d (height su)) (\<lambda>t.
     Inr (rnd (t * aspect_ratio su)))))"

text \<open>
  Lines 87--91: \<^verbatim>\<open>screen_x = (x - (width / 2)) / width\<close>, then the direction vector is built,
  rotated by the camera orientation and normalized.
\<close>

definition pixel_ray_dir ::
  "('v, 'e) mathutils \<Rightarrow> ('v, 'e, 'o, 'm) scene \<Rightarrow> render_env \<Rightarrow> int \<Rightarrow> rat \<Rightarrow> int \<Rightarrow> py_error + 'v" where
  "pixel_ray_dir mu scene su s screen_y x =
     bind_err (int_truediv rnd (width su) 2) (\<lambda>w2.
     bind_err (int_sub_float x w2) (\<lambda>d.
     bind_err (float_div_int d (width su)) (\<lambda>screen_x.
     bind_err (list_getitem (corput_x su) s) (\<lambda>cx.
     bind_err (list_getitem (corput_y su) s) (\<lambda>cy.
     let ray_dir = Vector mu (rnd (screen_x + cx), rnd (screen_y + cy), - focal_length su);
         ray_dir = rotate mu ray_dir (camera_rotation_euler scene);
         ray_dir = normalized mu ray_dir
     in Inr ray_dir)))))"

text \<open>Lines 96--97: the pixel \<^verbatim>\<open>[r, g, b, 1.0]\<close> stored for a colour.\<close>

definition pixel_of_color :: "rat \<times> rat \<times> rat \<Rightarrow> rat list" where
  "pixel_of_color color = (case color of (r, g, b) \<Rightarrow> [r, g, b, 1])"

text \<open>Lines 87--97, the body of the loop over \<open>x\<close>.\<close>

definition pixel_body ::
  "('v, 'e) mathutils \<Rightarrow> ('v, 'e, 'o, 'm) scene \<Rightarrow> render_env \<Rightarrow> int \<Rightarrow> int \<Rightarrow> rat \<Rightarrow> int \<Rightarrow>
     'v render_state \<Rightarrow> py_error option \<times> 'v render_state" where
  "pixel_body mu scene su s y screen_y x st =
     (case pixel_ray_dir mu scene su s screen_y x of
        Inl e \<Rightarrow> (Some e, st)
      | Inr ray_dir \<Rightarrow>
          let cam_location = camera_location scene;
              color = RT_trace_ray scene cam_location ray_dir;
              st = st\<lparr>queries := queries st @ [(cam_location, ray_dir)]\<rparr>
          in case list_setitem (rect st) (y * size_x su + x) (pixel_of_color color) of
               Inl e \<Rightarrow> (Some e, st)
             | Inr rect' \<Rightarrow> (None, st\<lparr>rect := rect'\<rparr>))"

text \<open>Lines 84--97, the body of the loop over \<open>y\<close>.\<close>

definition row_body ::
  "('v, 'e) mathutils \<Rightarrow> ('v, 'e, 'o, 'm) scene \<Rightarrow> render_env \<Rightarrow> int \<Rightarrow> int \<Rightarrow>
     'v render_state \<Rightarrow> py_error option \<times> 'v render_state" where
  "row_body mu scene su s y st =
     (case row_screen_y su y of
        Inl e \<Rightarrow> (Some e, st)
      | Inr screen_y \<Rightarrow> for_loop (pixel_body mu scene su s y screen_y) (py_range (size_x su)) st)"

text \<open>Lines 83--97, the body of the loop over the samples.\<close>

definition sample_body ::
  "('v, 'e) mathutils \<Rightarrow> ('v, 'e, 'o, 'm) scene \<Rightarrow> render_env \<Rightarrow> int \<Rightarrow>
     'v render_state \<Rightarrow> py_error option \<times> 'v render_state" where
  "sample_body mu scene su s st = for_loop (row_body mu scene su s) (py_range (size_y su)) st"

text \<open>
  \<^verbatim>\<open>render\<close> with the local \<^verbatim>\<open>sample_count\<close> as a parameter. The result is \<open>None\<close> for a run
  that never returns; otherwise it is the list of scene queries made, in order, together with
  \<open>Inl e\<close> when the run raised \<open>e\<close> or \<open>Inr rect\<close>, the buffer handed to the render result
  (lines 100--103).
\<close>

definition render_samples ::
  "nat \<Rightarrow> ('v, 'e) mathutils \<Rightarrow> ('v, 'e, 'o, 'm) scene \<Rightarrow>
     ((py_error + rat list list) \<times> ('v \<times> 'v) list) option" where
  "render_samples sample_count mu scene =
     (case render_setup sample_count scene of
        None \<Rightarrow> None
      | Some (Inl e) \<Rightarrow> Some (Inl e, [])
      | Some (Inr su) \<Rightarrow>
          let color = [0, 0, 0, 1];
              pixel_count = size_x su * size_y su;
              rect0 = replicate (nat pixel_count) color
          in case for_loop (sample_body mu scene su) (py_range (int sample_count))
                    \<lparr>rect = rect0, queries = []\<rparr> of
               (Some e, st) \<Rightarrow> Some (Inl e, queries st)
             | (None, st) \<Rightarrow> Some (Inr (rect st), queries st))"

text \<open>Line 61: \<^verbatim>\<open>sample_count = 1\<close>.\<close>

definition render ::
  "('v, 'e) mathutils \<Rightarrow> ('v, 'e, 'o, 'm) scene \<Rightarrow>
     ((py_error + rat list list) \<times> ('v \<times> 'v) list) option" where
  "render mu scene = render_samples 1 mu scene"

text \<open>
  The direction of the ray of sample \<open>s\<close> through pixel \<open>(x, y)\<close>, as the loop computes it.
\<close>

definition ray_of_pixel ::
  "('v, 'e) mathutils \<Rightarrow> ('v, 'e, 'o, 'm) scene \<Rightarrow> render_env \<Rightarrow> int \<Rightarrow> int \<Rightarrow> int \<Rightarrow> py_error + 'v" where
  "ray_of_pixel mu scene su s y x =
     bind_err (row_screen_y su y) (\<lambda>screen_y. pixel_ray_dir mu scene su s screen_y x)"

text \<open>
  The hit flag that the scene query returns for the ray of sample \<open>s\<close> through pixel \<open>(x, y)\<close>
  (false when the direction cannot be computed).
\<close>

definition pixel_hit ::
  "('v, 'e) mathutils \<Rightarrow> ('v, 'e, 'o, 'm) scene \<Rightarrow> render_env \<Rightarrow> int \<Rightarrow> int \<Rightarrow> int \<Rightarrow> bool" where
  "pixel_hit mu scene su s y x =
     (case ray_of_pixel mu scene su s y x of
        Inl e \<Rightarrow> False
      | Inr d \<Rightarrow> fst (ray_cast scene (camera_location scene) d))"

text \<open>A pixel is four floats \<open>[r, g, b, a]\<close>; it is opaque when the alpha component is \<open>1.0\<close>.\<close>

definition opaque_pixel :: "rat list \<Rightarrow> bool" where
  "opaque_pixel p = (length p = 4 \<and> p ! 3 = 1)"

text \<open>The invariant of the pixel loop: the buffer has \<open>n\<close> pixels and all of them are opaque.\<close>

definition buffer_ok :: "nat \<Rightarrow> 'v render_state \<Rightarrow> bool" where
  "buffer_ok n st = (length (rect st) = n \<and> list_all opaque_pixel (rect st))"

text \<open>
  The invariant of the pixel loop of sample \<open>s\<close> after \<open>m\<close> pixels: \<open>m\<close> scene queries were made
  since the sample began with \<open>q\<close> queries, query number \<open>j\<close> was the ray of pixel
  \<open>(x, y) = (j mod size_x, j div size_x)\<close>, and the buffer holds at \<open>j\<close> the colour of that ray.
\<close>

definition written ::
  "('v, 'e) mathutils \<Rightarrow> ('v, 'e, 'o, 'm) scene \<Rightarrow> render_env \<Rightarrow> int \<Rightarrow> nat \<Rightarrow> nat \<Rightarrow>
     'v render_state \<Rightarrow> bool" where
  "written mu scene su s q m st =
     (length (queries st) = q + m \<and>
      (\<forall>j<m.
         ray_of_pixel mu scene su s (int (j div nat (size_x su))) (int (j mod nat (size_x su))) =
           Inr (snd (queries st ! (q + j))) \<and>
         fst (queries st ! (q + j)) = camera_location scene \<and>
         rect st ! j =
           (if pixel_hit mu scene su s (int (j div nat (size_x su))) (int (j mod nat (size_x su)))
            then [1, 0, 0, 1] else [0, 0, 0, 1])))"

section \<open>The vector operations of the camera model\<close>

text \<open>
  The program builds, rotates and normalizes the ray direction with the host's
  \<^verbatim>\<open>mathutils.Vector\<close>, whose code is not part of the repository. The definitions of this
  section follow the specification's camera model (section 4.2) instead: vectors are triples
  of real numbers and the operations are exact.
\<close>

type_synonym vec3 = "real \<times> real \<times> real"

text \<open>
  Modelled from the spec: the magnitude of a direction vector (the host's
  \<^verbatim>\<open>Vector.length\<close> is missing), its Euclidean length.
\<close>

definition magnitude :: "vec3 \<Rightarrow> real" where
  "magnitude v = (case v of (a, b, c) \<Rightarrow> sqrt (a\<^sup>2 + b\<^sup>2 + c\<^sup>2))"

text \<open>
  Modelled from the spec: ``normalize to unit length'' (the host's \<^verbatim>\<open>Vector.normalized\<close> is
  missing), the vector divided by its magnitude. The zero vector, for which the specification
  reports a degenerate direction, is left as it is.
\<close>

definition spec_normalized :: "vec3 \<Rightarrow> vec3" where
  "spec_normalized v =
     (case v of (a, b, c) \<Rightarrow> (a / magnitude v, b / magnitude v, c / magnitude v))"

text \<open>
  Modelled from the spec: the rotations about the three coordinate axes by an angle, from
  which the camera's orientation rotation is composed (the host's rotation code is missing).
\<close>

definition spec_rotate_x :: "real \<Rightarrow> vec3 \<Rightarrow> vec3" where
  "spec_rotate_x t v = (case v of (a, b, c) \<Rightarrow> (a, b * cos t - c * sin t, b * sin t + c * cos t))"

definition spec_rotate_y :: "real \<Rightarrow> vec3 \<Rightarrow> vec3" where
  "spec_rotate_y t v = (case v of (a, b, c) \<Rightarrow> (a * cos t + c * sin t, b, c * cos t - a * sin t))"

definition spec_rotate_z :: "real \<Rightarrow> vec3 \<Rightarrow> vec3" where
  "spec_rotate_z t v = (case v of (a, b, c) \<Rightarrow> (a * cos t - b * sin t, a * sin t + b * cos t, c))"

text \<open>
  Modelled from the spec: ``apply the camera's orientation rotation to this vector'' (the
  host's \<^verbatim>\<open>Vector.rotate\<close> is missing), for an orientation given by Euler angles about the
  \<open>x\<close>, \<open>y\<close> and \<open>z\<close> axes, applied in that order.
\<close>

definition spec_rotate :: "vec3 \<Rightarrow> real \<times> real \<times> real \<Rightarrow> vec3" where
  "spec_rotate v e =
     (case e of (ex, ey, ez) \<Rightarrow> spec_rotate_z ez (spec_rotate_y ey (spec_rotate_x ex v)))"

text \<open>
  Modelled from the spec: the host library as the camera model of the specification describes
  it (the host's \<^verbatim>\<open>mathutils\<close> module is missing). The constructor takes the three floats as
  they are.
\<close>

definition spec_vectors :: "(vec3, real \<times> real \<times> real) mathutils" where
  "spec_vectors =
     \<lparr>Vector = (\<lambda>v. case v of (a, b, c) \<Rightarrow> (of_rat a, of_rat b, of_rat c)),
      rotate = spec_rotate, normalized = spec_normalized\<rparr>"

section \<open>Concrete inputs\<close>

text \<open>
  A stand-in for the host library, for running the model on concrete inputs: vectors are
  triples of floats, and \<open>rotate\<close> and \<open>normalized\<close> return their argument.
\<close>

definition plain_vectors :: "(rat \<times> rat \<times> rat, unit) mathutils" where
  "plain_vectors = \<lparr>Vector = (\<lambda>v. v), rotate = (\<lambda>v e. v), normalized = (\<lambda>v. v)\<rparr>"

text \<open>
  A scene with a 50 mm lens on a 36 mm sensor at the origin, whose ray cast reports a hit
  exactly for the directions in \<open>hits\<close>, on the object \<open>obj\<close>.
\<close>

definition stub_scene ::
  "int \<Rightarrow> int \<Rightarrow> int \<Rightarrow> (rat \<times> rat \<times> rat \<Rightarrow> bool) \<Rightarrow> nat \<Rightarrow>
     (rat \<times> rat \<times> rat, unit, nat, unit) scene" where
  "stub_scene res_x res_y percentage hits obj =
     \<lparr>resolution_x = res_x, resolution_y = res_y, resolution_percentage = percentage,
      camera_lens = 50, camera_sensor_width = 36, camera_location = (0, 0, 0),
      camera_rotation_euler = (),
      scene_ray_cast = (\<lambda>origin direction. (hits direction, direction, origin, int obj, obj, ()))\<rparr>"

text \<open>
  A scene for the camera model of the specification: resolution \<open>4 \<times> 4\<close>, a lens of \<open>1\<close> on a
  sensor of width \<open>16\<close>, the camera at the origin and turned by a quarter turn about the \<open>z\<close>
  axis, and a ray cast that never reports a hit.
\<close>

definition turned_scene :: "(vec3, real \<times> real \<times> real, nat, unit) scene" where
  "turned_scene =
     \<lparr>resolution_x = 4, resolution_y = 4, resolution_percentage = 100,
      camera_lens = 1, camera_sensor_width = 16, camera_location = (0, 0, 0),
      camera_rotation_euler = (0, 0, pi / 2),
      scene_ray_cast = (\<lambda>origin direction. (False, direction, origin, 0, 0, ()))\<rparr>"

section \<open>Rounding, the digit sum and the loop\<close>

subsection \<open>Facts about rounding\<close>

lemma binade_bounds:
  assumes "x \<noteq> 0"
  shows "2 powi binade x \<le> \<bar>x\<bar>" and "\<bar>x\<bar> < 2 powi (binade x + 1)"
proof -
  have "2 powi binade x \<le> \<bar>x\<bar> \<and> \<bar>x\<bar> < 2 powi (binade x + 1)"
  proof (cases "1 \<le> \<bar>x\<bar>")
    case True
    define f where "f = \<lfloor>\<bar>x\<bar>\<rfloor>"
    have f1: "1 \<le> f" using True by (simp add: f_def le_floor_iff)
    have b: "binade x = bitlen f - 1" using True by (simp add: binade_def f_def)
    have bl: "1 \<le> bitlen f"
      using f1 bitlen_eq_zero_iff[of f] bitlen_nonneg[of f] by linarith
    from bitlen_bounds[of f] f1
    have lo: "2 ^ nat (bitlen f - 1) \<le> f" and hi: "f < 2 ^ nat (bitlen f)"
      by auto
    have "(2::rat) powi (bitlen f - 1) = of_int (2 ^ nat (bitlen f - 1))"
      using bl by (simp add: power_int_nonneg_exp)
    also have "\<dots> \<le> of_int f" using lo by (simp only: of_int_le_iff)
    also have "\<dots> \<le> \<bar>x\<bar>" by (simp add: f_def)
    finally have A: "2 powi binade x \<le> \<bar>x\<bar>" by (simp add: b)
    have "f + 1 \<le> 2 ^ nat (bitlen f)" using hi by simp
    then have "(of_int (f + 1) :: rat) \<le> of_int (2 ^ nat (bitlen f))"
      by (simp only: of_int_le_iff)
    moreover have "\<bar>x\<bar> < of_int (f + 1)"
      using floor_correct[of "\<bar>x\<bar>"] by (simp add: f_def)
    moreover have "(of_int (2 ^ nat (bitlen f)) :: rat) = 2 powi (bitlen f)"
      using bl by (simp add: power_int_nonneg_exp)
    ultimately have "\<bar>x\<bar> < 2 powi (binade x + 1)" by (simp add: b)
    with A show ?thesis by simp
  next
    case False
    define y where "y = 1 / \<bar>x\<bar>"
    define m where "m = \<lceil>y\<rceil> - 1"
    have xpos: "0 < \<bar>x\<bar>" using assms by simp
    have y1: "1 < y" using False xpos by (simp add: y_def)
    have m1: "1 \<le> m" using y1 by (simp add: m_def less_ceiling_iff)
    have b: "binade x = - bitlen m" using False by (simp add: binade_def m_def y_def)
    have bl: "1 \<le> bitlen m"
      using m1 bitlen_eq_zero_iff[of m] bitlen_nonneg[of m] by linarith
    from bitlen_bounds[of m] m1
    have lo: "2 ^ nat (bitlen m - 1) \<le> m" and hi: "m < 2 ^ nat (bitlen m)"
      by auto
    have "y \<le> of_int (m + 1)" by (simp add: m_def)
    also have "(of_int (m + 1) :: rat) \<le> of_int (2 ^ nat (bitlen m))"
      using hi by (simp only: of_int_le_iff)
    also have "(of_int (2 ^ nat (bitlen m)) :: rat) = 2 powi (bitlen m)"
      using bl by (simp add: power_int_nonneg_exp)
    finally have "1 / \<bar>x\<bar> \<le> 2 powi (bitlen m)" by (simp add: y_def)
    then have "1 \<le> 2 powi (bitlen m) * \<bar>x\<bar>" using xpos by (simp add: field_simps)
    then have A: "2 powi binade x \<le> \<bar>x\<bar>"
      by (simp add: b power_int_minus field_simps)
    have "(2::rat) powi (bitlen m - 1) = of_int (2 ^ nat (bitlen m - 1))"
      using bl by (simp add: power_int_nonneg_exp)
    also have "\<dots> \<le> of_int m" using lo by (simp only: of_int_le_iff)
    also have "of_int m < y" by (simp add: m_def) (metis ceiling_correct diff_less_eq)
    finally have "2 powi (bitlen m - 1) < 1 / \<bar>x\<bar>" by (simp add: y_def)
    moreover have Ppos: "(0::rat) < 2 powi (bitlen m - 1)" by simp
    ultimately have "\<bar>x\<bar> < 1 / 2 powi (bitlen m - 1)"
      using xpos by (simp add: field_simps)
    also have "1 / 2 powi (bitlen m - 1) = (2::rat) powi (- (bitlen m - 1))"
      by (simp only: power_int_minus_divide)
    finally have "\<bar>x\<bar> < 2 powi (- (bitlen m - 1))" .
    then have "\<bar>x\<bar> < 2 powi (binade x + 1)" by (simp add: b)
    with A show ?thesis by simp
  qed
  then show "2 powi binade x \<le> \<bar>x\<bar>" and "\<bar>x\<bar> < 2 powi (binade x + 1)" by simp_all
qed

lemma binade_less:
  assumes "x \<noteq> 0" and "\<bar>x\<bar> < 2 powi k"
  shows "binade x < k"
proof (rule ccontr)
  assume "\<not> binade x < k"
  then have "k \<le> binade x" by simp
  then have "(2::rat) powi k \<le> 2 powi binade x" by (intro power_int_increasing) simp_all
  with binade_bounds(1)[OF assms(1)] assms(2) show False by linarith
qed

lemma binade_le:
  assumes "x \<noteq> 0" and "\<bar>x\<bar> \<le> 2 powi k"
  shows "binade x \<le> k"
proof (rule ccontr)
  assume "\<not> binade x \<le> k"
  then have "k + 1 \<le> binade x" by simp
  then have "(2::rat) powi (k + 1) \<le> 2 powi binade x" by (intro power_int_increasing) simp_all
  moreover have "(2::rat) powi k < 2 powi (k + 1)" by (intro power_int_strict_increasing) simp_all
  ultimately show False using binade_bounds(1)[OF assms(1)] assms(2) by linarith
qed

lemma ulp_pos: "0 < ulp x"
  by (simp add: ulp_def)

lemma round_half_even_of_int: "round_half_even (of_int k) = k"
  by (simp add: round_half_even_def)

lemma round_half_even_ge:
  assumes "of_int K \<le> r"
  shows "K \<le> round_half_even r"
proof -
  have "K \<le> \<lfloor>r\<rfloor>" using assms by (simp add: le_floor_iff)
  then show ?thesis by (simp add: round_half_even_def Let_def)
qed

lemma round_half_even_le:
  assumes "r \<le> of_int K"
  shows "round_half_even r \<le> K"
proof (cases "r = of_int \<lfloor>r\<rfloor>")
  case True
  then have "round_half_even r = \<lfloor>r\<rfloor>" by (simp add: round_half_even_def)
  moreover have "\<lfloor>r\<rfloor> \<le> K" using assms by (simp add: floor_le_iff)
  ultimately show ?thesis by simp
next
  case False
  then have "of_int \<lfloor>r\<rfloor> < r" using of_int_floor_le[of r] by linarith
  with assms have "(of_int \<lfloor>r\<rfloor> :: rat) < of_int K" by linarith
  then have "\<lfloor>r\<rfloor> + 1 \<le> K" by (simp only: of_int_less_iff)
  then show ?thesis by (simp add: round_half_even_def Let_def)
qed

lemma rnd_ge_multiple:
  assumes "y \<le> x" and "x \<noteq> 0" and "y = of_int K * ulp x"
  shows "y \<le> rnd x"
proof -
  have "of_int K \<le> x / ulp x"
    using assms(1,3) ulp_pos[of x] by (simp add: field_simps)
  then have "K \<le> round_half_even (x / ulp x)" by (rule round_half_even_ge)
  then have "(of_int K :: rat) \<le> of_int (round_half_even (x / ulp x))"
    by (simp only: of_int_le_iff)
  then have "of_int K * ulp x \<le> of_int (round_half_even (x / ulp x)) * ulp x"
    using ulp_pos[of x] by (simp only: mult_le_cancel_right_pos)
  then show ?thesis using assms(2,3) by (simp add: rnd_def)
qed

lemma rnd_le_multiple:
  assumes "x \<le> y" and "x \<noteq> 0" and "y = of_int K * ulp x"
  shows "rnd x \<le> y"
proof -
  have "x / ulp x \<le> of_int K"
    using assms(1,3) ulp_pos[of x] by (simp add: field_simps)
  then have "round_half_even (x / ulp x) \<le> K" by (rule round_half_even_le)
  then have "(of_int (round_half_even (x / ulp x)) :: rat) \<le> of_int K"
    by (simp only: of_int_le_iff)
  then have "of_int (round_half_even (x / ulp x)) * ulp x \<le> of_int K * ulp x"
    using ulp_pos[of x] by (simp only: mult_le_cancel_right_pos)
  then show ?thesis using assms(2,3) by (simp add: rnd_def)
qed

lemma pow2_multiple_of_ulp:
  assumes "x \<noteq> 0" and "\<bar>x\<bar> \<le> 2 powi k" and "- 1022 \<le> k"
  shows "\<exists>K. (2::rat) powi k = of_int K * ulp x"
proof -
  define u where "u = max (binade x) (- 1022) - 52"
  have "binade x \<le> k" using assms(1,2) by (rule binade_le)
  then have uk: "0 \<le> k - u" using assms(3) by (simp add: u_def)
  have "(2::rat) powi k = 2 powi (k - u) * 2 powi u"
    by (simp add: power_int_add[symmetric])
  also have "(2::rat) powi (k - u) = of_int (2 ^ nat (k - u))"
    using uk by (simp add: power_int_nonneg_exp)
  finally have "(2::rat) powi k = of_int (2 ^ nat (k - u)) * ulp x"
    by (simp add: ulp_def u_def)
  then show ?thesis by blast
qed

lemma rnd_nonneg:
  assumes "0 \<le> x"
  shows "0 \<le> rnd x"
proof (cases "x = 0")
  case True
  then show ?thesis by (simp add: rnd_def)
next
  case False
  have "(0::rat) = of_int 0 * ulp x" by simp
  with assms False show ?thesis by (rule rnd_ge_multiple)
qed

lemma rnd_le_pow2:
  assumes "x \<le> 2 powi k" and "0 \<le> x" and "- 1022 \<le> k"
  shows "rnd x \<le> 2 powi k"
proof (cases "x = 0")
  case True
  then show ?thesis by (simp add: rnd_def)
next
  case False
  have "\<bar>x\<bar> \<le> 2 powi k" using assms(1,2) by simp
  with False obtain K where "(2::rat) powi k = of_int K * ulp x"
    using pow2_multiple_of_ulp assms(3) by blast
  with assms(1) False show ?thesis by (rule rnd_le_multiple)
qed

lemma rnd_ge_neg_pow2:
  assumes "- (2 powi k) \<le> x" and "x \<le> 0" and "- 1022 \<le> k"
  shows "- (2 powi k) \<le> rnd x"
proof (cases "x = 0")
  case True
  then show ?thesis by (simp add: rnd_def)
next
  case False
  have "\<bar>x\<bar> \<le> 2 powi k" using assms(1,2) by simp
  with False obtain K where "(2::rat) powi k = of_int K * ulp x"
    using pow2_multiple_of_ulp assms(3) by blast
  then have "- ((2::rat) powi k) = of_int (- K) * ulp x" by simp
  with assms(1) False show ?thesis by (rule rnd_ge_multiple)
qed

lemma rnd_exact:
  assumes "x = of_int m * 2 powi e" and "\<bar>m\<bar> < 2 ^ 53" and "- 1074 \<le> e"
  shows "rnd x = x"
proof (cases "x = 0")
  case True
  then show ?thesis by (simp add: rnd_def)
next
  case False
  define u where "u = max (binade x) (- 1022) - 52"
  have "\<bar>x\<bar> = of_int \<bar>m\<bar> * 2 powi e" by (simp add: assms(1) abs_mult)
  also have "\<dots> < of_int (2 ^ 53) * 2 powi e"
  proof (rule mult_strict_right_mono)
    show "(of_int \<bar>m\<bar> :: rat) < of_int (2 ^ 53)"
      using assms(2) by (simp only: of_int_less_iff)
    show "(0::rat) < 2 powi e" by simp
  qed
  also have "\<dots> = 2 powi (e + 53)" by (simp add: power_int_add)
  finally have "binade x < e + 53" using False by (intro binade_less)
  then have ue: "0 \<le> e - u" using assms(3) by (simp add: u_def)
  have "x / ulp x = of_int m * (2 powi e / 2 powi u)" by (simp add: assms(1) ulp_def u_def)
  also have "(2::rat) powi e / 2 powi u = 2 powi (e - u)" by (simp add: power_int_diff)
  also have "\<dots> = of_int (2 ^ nat (e - u))" using ue by (simp add: power_int_nonneg_exp)
  finally have "x / ulp x = of_int (m * 2 ^ nat (e - u))" by simp
  then have "round_half_even (x / ulp x) = m * 2 ^ nat (e - u)"
    by (simp only: round_half_even_of_int)
  then have "rnd x = of_int (m * 2 ^ nat (e - u)) * ulp x" using False by (simp add: rnd_def)
  also have "\<dots> = x / ulp x * ulp x" using \<open>x / ulp x = of_int (m * 2 ^ nat (e - u))\<close> by simp
  also have "\<dots> = x" using ulp_pos[of x] by simp
  finally show ?thesis .
qed

lemma rnd_zero: "rnd 0 = 0"
  by (simp add: rnd_def)

lemma round_half_even_nearest: "\<bar>of_int (round_half_even r) - r\<bar> \<le> 1 / 2"
proof -
  have "of_int \<lfloor>r\<rfloor> \<le> r" and "r < of_int \<lfloor>r\<rfloor> + 1" by linarith+
  then show ?thesis by (auto simp: round_half_even_def Let_def)
qed

text \<open>\<open>rnd\<close> rounds to a nearest multiple of the spacing, and rounding twice changes nothing.\<close>

lemma rnd_error: "\<bar>rnd x - x\<bar> \<le> ulp x / 2"
proof (cases "x = 0")
  case True
  then show ?thesis using ulp_pos[of x] by (simp add: rnd_def)
next
  case False
  have "\<bar>rnd x - x\<bar> = \<bar>of_int (round_half_even (x / ulp x)) - x / ulp x\<bar> * ulp x"
  proof -
    have "rnd x - x = (of_int (round_half_even (x / ulp x)) - x / ulp x) * ulp x"
      using False ulp_pos[of x] by (simp add: rnd_def field_simps)
    then show ?thesis using ulp_pos[of x] by (simp add: abs_mult)
  qed
  also have "\<dots> \<le> 1 / 2 * ulp x"
    using round_half_even_nearest[of "x / ulp x"] ulp_pos[of x]
    by (intro mult_right_mono) simp_all
  finally show ?thesis by simp
qed

lemma scaled_abs_less:
  assumes "x \<noteq> 0"
  shows "\<bar>x / ulp x\<bar> < 2 ^ 53"
proof -
  define e where "e = max (binade x) (- 1022)"
  have u: "ulp x = 2 powi (e - 52)" by (simp add: ulp_def e_def)
  have "\<bar>x\<bar> < 2 powi (binade x + 1)" using assms by (rule binade_bounds(2))
  also have "\<dots> \<le> 2 powi (e + 1)" by (intro power_int_increasing) (simp_all add: e_def)
  also have "\<dots> = 2 ^ 53 * 2 powi (e - 52)"
  proof -
    have "e + 1 = 53 + (e - 52)" by simp
    then have "(2::rat) powi (e + 1) = 2 powi (53 + (e - 52))" by (rule arg_cong)
    also have "\<dots> = 2 powi 53 * 2 powi (e - 52)" by (rule power_int_add) simp
    finally show ?thesis by simp
  qed
  finally have "\<bar>x\<bar> < 2 ^ 53 * ulp x" by (simp add: u)
  then show ?thesis using ulp_pos[of x] by (simp add: field_simps)
qed

lemma rnd_idempotent: "rnd (rnd x) = rnd x"
proof (cases "x = 0")
  case True
  then show ?thesis by (simp add: rnd_zero)
next
  case False
  define e where "e = max (binade x) (- 1022) - 52"
  define M where "M = round_half_even (x / ulp x)"
  have u: "ulp x = 2 powi e" by (simp add: ulp_def e_def)
  have r: "rnd x = of_int M * 2 powi e" using False by (simp add: rnd_def M_def u)
  have e0: "- 1074 \<le> e" by (simp add: e_def)
  have s: "\<bar>x / ulp x\<bar> < 2 ^ 53" using False by (rule scaled_abs_less)
  have up: "M \<le> 2 ^ 53"
  proof -
    have "x / ulp x \<le> \<bar>x / ulp x\<bar>" by (rule abs_ge_self)
    with s have "x / ulp x \<le> of_int (2 ^ 53)" by simp
    then show ?thesis unfolding M_def by (rule round_half_even_le)
  qed
  have lo: "- (2 ^ 53) \<le> M"
  proof -
    have "- (x / ulp x) \<le> \<bar>x / ulp x\<bar>" by (rule abs_ge_minus_self)
    with s have "of_int (- (2 ^ 53)) \<le> x / ulp x" by simp
    then show ?thesis unfolding M_def by (rule round_half_even_ge)
  qed
  consider "\<bar>M\<bar> < 2 ^ 53" | "M = 2 ^ 53" | "M = - (2 ^ 53)" using up lo by linarith
  then show ?thesis
  proof cases
    case 1
    then show ?thesis using e0 by (intro rnd_exact[OF r]) simp_all
  next
    case 2
    have p: "rnd x = of_int 1 * 2 powi (e + 53)"
      unfolding r 2 by (simp add: power_int_add)
    show ?thesis using e0 by (intro rnd_exact[OF p]) simp_all
  next
    case 3
    have p: "rnd x = of_int (- 1) * 2 powi (e + 53)"
      unfolding r 3 by (simp add: power_int_add)
    show ?thesis using e0 by (intro rnd_exact[OF p]) simp_all
  qed
qed

subsection \<open>Evaluation on numerals\<close>

lemma bitlen_numeral_simps:
  "bitlen 1 = 1"
  "bitlen (numeral (Num.Bit0 k)) = bitlen (numeral k) + 1"
  "bitlen (numeral (Num.Bit1 k)) = bitlen (numeral k) + 1"
  "bitlen (- numeral k) = 0"
proof -
  show "bitlen 1 = 1" by (subst compute_bitlen) simp
  have "numeral (Num.Bit0 k) div (2::int) = numeral k" by simp
  then show "bitlen (numeral (Num.Bit0 k)) = bitlen (numeral k) + 1"
    by (subst compute_bitlen) (simp only: zero_less_numeral if_True)
  have "numeral (Num.Bit1 k) div (2::int) = numeral k" by simp
  then show "bitlen (numeral (Num.Bit1 k)) = bitlen (numeral k) + 1"
    by (subst compute_bitlen) (simp only: zero_less_numeral if_True)
  show "bitlen (- numeral k) = 0" by (simp add: bitlen_eq_zero_iff)
qed

lemma floor_rat_numeral_simps:
  "\<lfloor>numeral a / numeral b :: rat\<rfloor> = numeral a div numeral b"
  "\<lfloor>- (numeral a / numeral b) :: rat\<rfloor> = - numeral a div numeral b"
  "\<lfloor>1 / numeral b :: rat\<rfloor> = 1 div numeral b"
  "\<lfloor>- (1 / numeral b) :: rat\<rfloor> = - 1 div numeral b"
  "\<lceil>numeral a / numeral b :: rat\<rceil> = - (- numeral a div numeral b)"
  "\<lceil>1 / numeral b :: rat\<rceil> = - (- 1 div numeral b)"
proof -
  show "\<lfloor>numeral a / numeral b :: rat\<rfloor> = numeral a div numeral b"
    using floor_divide_of_int_eq[of "numeral a" "numeral b", where ?'a = rat] by simp
  show "\<lfloor>- (numeral a / numeral b) :: rat\<rfloor> = - numeral a div numeral b"
    using floor_divide_of_int_eq[of "- numeral a" "numeral b", where ?'a = rat] by simp
  show "\<lfloor>1 / numeral b :: rat\<rfloor> = 1 div numeral b"
    using floor_divide_of_int_eq[of 1 "numeral b", where ?'a = rat] by simp
  show "\<lfloor>- (1 / numeral b) :: rat\<rfloor> = - 1 div numeral b"
    using floor_divide_of_int_eq[of "- 1" "numeral b", where ?'a = rat] by simp
  show "\<lceil>numeral a / numeral b :: rat\<rceil> = - (- numeral a div numeral b)"
    using floor_divide_of_int_eq[of "- numeral a" "numeral b", where ?'a = rat]
    by (simp add: ceiling_def)
  show "\<lceil>1 / numeral b :: rat\<rceil> = - (- 1 div numeral b)"
    using floor_divide_of_int_eq[of "- 1" "numeral b", where ?'a = rat]
    by (simp add: ceiling_def)
qed

subsection \<open>Facts about the digit sum and the loop\<close>

lemma powi_neg_nat: "(2::rat) powi (- int j) = 1 / 2 ^ j"
  by (simp only: power_int_minus_divide power_int_of_nat)

lemma no_overflow:
  assumes "\<bar>x\<bar> \<le> 1"
  shows "\<not> overflows x"
proof (cases "x = 0")
  case True
  then show ?thesis by (simp add: overflows_def)
next
  case False
  have "\<bar>x\<bar> \<le> 2 powi 0" using assms by simp
  with False have "binade x \<le> 0" by (rule binade_le)
  then show ?thesis by (simp add: overflows_def)
qed

lemma vdc_zero: "vdc 0 b = 0"
  by (simp add: vdc_def floorlog_def)

lemma vdc_step:
  assumes "0 < n" and "2 \<le> b"
  shows "vdc n b = of_int (n mod b) / of_int b + vdc (n div b) b / of_int b"
proof -
  have fl: "floorlog (nat b) (nat n) = Suc (floorlog (nat b) (nat (n div b)))"
    using assms by (subst compute_floorlog) (simp add: nat_div_distrib)
  have tm: "of_int ((n div b ^ Suc k) mod b) / (of_int (b ^ (Suc k + 1)) :: rat)
      = (of_int (((n div b) div b ^ k) mod b) / of_int (b ^ (k + 1))) / of_int b" for k
  proof -
    have "n div b ^ Suc k = (n div b) div b ^ k"
      using assms(2) by (simp add: zdiv_zmult2_eq)
    then show ?thesis by simp
  qed
  have "vdc n b = of_int ((n div b ^ 0) mod b) / of_int (b ^ (0 + 1))
      + (\<Sum>k<floorlog (nat b) (nat (n div b)).
           of_int ((n div b ^ Suc k) mod b) / (of_int (b ^ (Suc k + 1)) :: rat))"
    unfolding vdc_def fl by (rule sum.lessThan_Suc_shift)
  also have "(\<Sum>k<floorlog (nat b) (nat (n div b)).
           of_int ((n div b ^ Suc k) mod b) / (of_int (b ^ (Suc k + 1)) :: rat))
      = vdc (n div b) b / of_int b"
    unfolding vdc_def sum_divide_distrib by (rule sum.cong) (simp_all only: tm)
  finally show ?thesis by simp
qed

lemma vdc_bounds:
  assumes "0 \<le> n" and "2 \<le> b"
  shows "0 \<le> vdc n b \<and> vdc n b < 1"
  using assms(1)
proof (induction "nat n" arbitrary: n rule: less_induct)
  case less
  show ?case
  proof (cases "n = 0")
    case True
    then show ?thesis by (simp add: vdc_zero)
  next
    case False
    with less.prems have npos: "0 < n" by simp
    have bpos: "(0::rat) < of_int b" using assms(2) by simp
    have "nat (n div b) < nat n" and "0 \<le> n div b"
      using npos assms(2) by (simp_all add: pos_imp_zdiv_nonneg_iff nat_less_iff int_div_less_self)
    then have IH: "0 \<le> vdc (n div b) b" "vdc (n div b) b < 1"
      using less.hyps[of "n div b"] by simp_all
    have r0: "0 \<le> n mod b" and r1: "n mod b \<le> b - 1"
      using assms(2) pos_mod_bound[of b n] by simp_all
    have "(of_int (n mod b) :: rat) \<le> of_int (b - 1)" using r1 by (simp only: of_int_le_iff)
    then have "of_int (n mod b) + vdc (n div b) b < (of_int b :: rat)"
      using IH(2) by simp
    then have up: "(of_int (n mod b) + vdc (n div b) b) / of_int b < 1"
      using bpos by (simp add: field_simps)
    have "(0::rat) \<le> of_int (n mod b)" using r0 by simp
    then have lo: "0 \<le> (of_int (n mod b) + vdc (n div b) b) / of_int b"
      using IH(1) bpos by simp
    show ?thesis
      using lo up by (simp add: vdc_step[OF npos assms(2)] add_divide_distrib)
  qed
qed

lemma digit_quotient_bounds:
  assumes "2 \<le> b" and "0 < d"
  shows "0 \<le> (of_int (n mod b) :: rat) / of_int (d * b)"
    and "(of_int (n mod b) :: rat) / of_int (d * b) \<le> 1"
proof -
  have db: "0 < d * b" using assms by simp
  have r0: "0 \<le> n mod b" and r1: "n mod b < b"
    using assms(1) by simp_all
  have "b \<le> d * b" using assms by (simp add: mult_le_cancel_right1)
  with r1 have "n mod b \<le> d * b" by linarith
  then have "(of_int (n mod b) :: rat) \<le> of_int (d * b)" by (simp only: of_int_le_iff)
  moreover have dbr: "(0::rat) < of_int (d * b)" using db by (simp only: of_int_0_less_iff)
  ultimately show "(of_int (n mod b) :: rat) / of_int (d * b) \<le> 1"
    by (simp add: field_simps)
  have "(0::rat) \<le> of_int (n mod b)" using r0 by simp
  then show "0 \<le> (of_int (n mod b) :: rat) / of_int (d * b)"
    using dbr by (intro divide_nonneg_pos)
qed

lemma div_decreases:
  assumes "0 < n" and "2 \<le> (b::int)"
  shows "nat (n div b) < nat n" and "0 \<le> n div b"
  using assms by (simp_all add: pos_imp_zdiv_nonneg_iff nat_less_iff int_div_less_self)

lemma corput_loop_exact:
  assumes "2 \<le> b"
  shows "0 \<le> n \<Longrightarrow> 0 < d \<Longrightarrow>
    corput_loop id n b q d = Some (Inr (q + vdc n b / of_int d))"
proof (induction "nat n" arbitrary: n q d rule: less_induct)
  case less
  show ?case
  proof (cases "n = 0")
    case True
    then show ?thesis by (simp add: corput_loop.simps vdc_zero)
  next
    case False
    with less.prems have npos: "0 < n" by simp
    have b0: "b \<noteq> 0" and db: "0 < d * b" and db0: "d * b \<noteq> 0"
      using assms less.prems(2) by simp_all
    let ?t = "(of_int (n mod b) :: rat) / of_int (d * b)"
    have "\<bar>?t\<bar> \<le> 1"
      using digit_quotient_bounds[OF assms less.prems(2), of n] by simp
    then have "\<not> overflows ?t" by (rule no_overflow)
    then have td: "int_truediv id (n mod b) (d * b) = Inr ?t"
      using db0 by (simp add: int_truediv_def)
    have IH: "corput_loop id (n div b) b (q + ?t) (d * b)
        = Some (Inr (q + ?t + vdc (n div b) b / of_int (d * b)))"
      using less.hyps[of "n div b" "d * b" "q + ?t"] div_decreases[OF npos assms] db by simp
    have dr: "(of_int d :: rat) \<noteq> 0" and br: "(of_int b :: rat) \<noteq> 0"
      using less.prems(2) b0 by simp_all
    have "q + ?t + vdc (n div b) b / of_int (d * b) = q + vdc n b / of_int d"
      using dr br by (simp add: vdc_step[OF npos assms] field_simps)
    with IH have "corput_loop id (n div b) b (q + ?t) (d * b)
        = Some (Inr (q + vdc n b / of_int d))" by simp
    then show ?thesis
      using False b0 td by (subst corput_loop.simps) (simp add: Let_def)
  qed
qed

lemma corput_loop_returns:
  assumes "2 \<le> b"
  shows "0 \<le> n \<Longrightarrow> 0 < d \<Longrightarrow> 0 \<le> q \<Longrightarrow>
    \<exists>v. corput_loop rnd n b q d = Some (Inr v) \<and> 0 \<le> v"
proof (induction "nat n" arbitrary: n q d rule: less_induct)
  case less
  show ?case
  proof (cases "n = 0")
    case True
    then show ?thesis using less.prems(3) by (simp add: corput_loop.simps)
  next
    case False
    with less.prems have npos: "0 < n" by simp
    have b0: "b \<noteq> 0" and db: "0 < d * b" and db0: "d * b \<noteq> 0"
      using assms less.prems(2) by simp_all
    let ?x = "(of_int (n mod b) :: rat) / of_int (d * b)"
    note xb = digit_quotient_bounds[OF assms less.prems(2), of n]
    have t0: "0 \<le> rnd ?x" using xb(1) by (rule rnd_nonneg)
    have "rnd ?x \<le> 2 powi 0" using xb by (intro rnd_le_pow2) simp_all
    with t0 have "\<bar>rnd ?x\<bar> \<le> 1" by simp
    then have "\<not> overflows (rnd ?x)" by (rule no_overflow)
    then have td: "int_truediv rnd (n mod b) (d * b) = Inr (rnd ?x)"
      using db0 by (simp add: int_truediv_def Let_def)
    have "0 \<le> rnd (q + rnd ?x)" using less.prems(3) t0 by (intro rnd_nonneg) simp
    then have "\<exists>v. corput_loop rnd (n div b) b (rnd (q + rnd ?x)) (d * b) = Some (Inr v) \<and> 0 \<le> v"
      using less.hyps[of "n div b" "d * b" "rnd (q + rnd ?x)"] div_decreases[OF npos assms] db
      by simp
    then show ?thesis
      using False b0 td by (subst corput_loop.simps) (simp add: Let_def)
  qed
qed

lemma corput_loop_base2:
  shows "0 \<le> n \<Longrightarrow> n < 2 ^ (53 - k) \<Longrightarrow> k \<le> 53 \<Longrightarrow> 0 \<le> m \<Longrightarrow> m < 2 ^ k \<Longrightarrow>
    \<exists>M. 0 \<le> M \<and> M < 2 ^ 53 \<and>
      corput_loop rnd n 2 (of_int m / 2 ^ k) (2 ^ k) = Some (Inr (of_int M / 2 ^ 53)) \<and>
      of_int M / 2 ^ 53 = of_int m / 2 ^ k + vdc n 2 / 2 ^ k"
proof (induction "nat n" arbitrary: n k m rule: less_induct)
  case less
  show ?case
  proof (cases "n = 0")
    case True
    define M where "M = m * 2 ^ (53 - k)"
    have p: "(2::int) ^ 53 = 2 ^ k * 2 ^ (53 - k)"
      using less.prems(3) by (simp add: power_add[symmetric])
    have "M < 2 ^ k * 2 ^ (53 - k)"
      unfolding M_def using less.prems(5) by (intro mult_strict_right_mono) simp_all
    then have M1: "M < 2 ^ 53" using p by simp
    have M0: "0 \<le> M" using less.prems(4) by (simp add: M_def)
    have "(of_int M :: rat) / of_int (2 ^ 53) = of_int m / of_int (2 ^ k)"
      unfolding p M_def by simp
    then have eq: "(of_int M :: rat) / 2 ^ 53 = of_int m / 2 ^ k" by simp
    show ?thesis
      using True M0 M1 eq by (auto simp: corput_loop.simps vdc_zero)
  next
    case False
    with less.prems have npos: "0 < n" by simp
    have k53: "k < 53"
    proof (rule ccontr)
      assume "\<not> k < 53"
      then have "53 - k = 0" by simp
      with less.prems(2) npos show False by simp
    qed
    define r where "r = n mod 2"
    have r01: "0 \<le> r" "r \<le> 1" by (simp_all add: r_def)
    let ?x = "(of_int r :: rat) / of_int (2 ^ k * 2)"
    have xe: "?x = of_int r * 2 powi (- int (Suc k))"
      unfolding powi_neg_nat by simp
    have ex: "rnd ?x = ?x"
      using r01 k53 by (intro rnd_exact[OF xe]) simp_all
    have "\<bar>?x\<bar> \<le> 1"
      using digit_quotient_bounds[of 2 "2 ^ k" n] by (simp add: r_def)
    then have "\<not> overflows ?x" by (rule no_overflow)
    then have td: "int_truediv rnd (n mod 2) (2 ^ k * 2) = Inr ?x"
      unfolding int_truediv_def Let_def r_def[symmetric] ex by simp
    define m' where "m' = 2 * m + r"
    have m'0: "0 \<le> m'" and m'1: "m' < 2 ^ Suc k"
      using less.prems(4,5) r01 by (simp_all add: m'_def)
    have "(2::int) ^ Suc k \<le> 2 ^ 53" using k53 by (intro power_increasing) simp_all
    with m'0 m'1 have m'53: "\<bar>m'\<bar> < 2 ^ 53" by simp
    have qe: "of_int m / 2 ^ k + ?x = (of_int m' :: rat) / 2 ^ Suc k"
      by (simp add: m'_def field_simps)
    have qe': "of_int m / 2 ^ k + ?x = of_int m' * 2 powi (- int (Suc k))"
      unfolding qe powi_neg_nat by simp
    have "rnd (of_int m / 2 ^ k + ?x) = of_int m / 2 ^ k + ?x"
      using m'53 k53 by (intro rnd_exact[OF qe']) simp_all
    then have q': "rnd (of_int m / 2 ^ k + ?x) = of_int m' / 2 ^ Suc k"
      using qe by simp
    have n'1: "n div 2 < 2 ^ (53 - Suc k)"
    proof -
      have "(2::int) ^ (53 - k) = 2 * 2 ^ (53 - Suc k)"
        using k53 by (simp add: power_Suc[symmetric] Suc_diff_Suc del: power_Suc)
      with less.prems(2) show ?thesis by simp
    qed
    have "\<exists>M. 0 \<le> M \<and> M < 2 ^ 53 \<and>
      corput_loop rnd (n div 2) 2 (of_int m' / 2 ^ Suc k) (2 ^ Suc k) = Some (Inr (of_int M / 2 ^ 53)) \<and>
      of_int M / 2 ^ 53 = of_int m' / 2 ^ Suc k + vdc (n div 2) 2 / 2 ^ Suc k"
      using less.hyps[of "n div 2" "Suc k" m'] div_decreases[OF npos, of 2] n'1 k53 m'0 m'1
      by simp
    then obtain M where M: "0 \<le> M" "M < 2 ^ 53"
      "corput_loop rnd (n div 2) 2 (of_int m' / 2 ^ Suc k) (2 ^ Suc k) = Some (Inr (of_int M / 2 ^ 53))"
      "of_int M / 2 ^ 53 = of_int m' / 2 ^ Suc k + vdc (n div 2) 2 / 2 ^ Suc k"
      by blast
    have step: "corput_loop rnd n 2 (of_int m / 2 ^ k) (2 ^ k) = Some (Inr (of_int M / 2 ^ 53))"
      using False td q' M(3) by (subst corput_loop.simps) (simp add: Let_def mult.commute)
    have vs: "vdc n 2 = of_int r / 2 + vdc (n div 2) 2 / 2"
      using vdc_step[OF npos, of 2] by (simp add: r_def)
    have "(of_int m' :: rat) / 2 ^ Suc k + vdc (n div 2) 2 / 2 ^ Suc k
        = of_int m / 2 ^ k + vdc n 2 / 2 ^ k"
      unfolding vs by (simp add: m'_def field_simps)
    with M(4) have "of_int M / 2 ^ 53 = of_int m / 2 ^ k + vdc n 2 / 2 ^ k" by (rule trans)
    with M(1,2) step show ?thesis by blast
  qed
qed

lemma corput_base2_exact:
  assumes "0 \<le> n" and "n < 2 ^ 53"
  shows "corput n 2 = Some (Inr (vdc n 2 - 1 / 2))"
proof -
  from corput_loop_base2[of n 0 0] assms
  obtain M where M: "0 \<le> M" "M < 2 ^ 53"
    "corput_loop rnd n 2 0 1 = Some (Inr (of_int M / 2 ^ 53))"
    "of_int M / 2 ^ 53 = vdc n 2"
    by auto
  have e: "vdc n 2 - 1 / 2 = of_int (M - 2 ^ 52) * 2 powi (- 53)"
    unfolding M(4)[symmetric] by (simp add: power_int_minus field_simps)
  have "\<bar>M - 2 ^ 52\<bar> < 2 ^ 53" using M(1,2) by simp
  then have "rnd (vdc n 2 - 1 / 2) = vdc n 2 - 1 / 2"
    by (intro rnd_exact[OF e]) simp_all
  then show ?thesis
    using M(3,4) by (simp add: corput_def corput_with_def)
qed

lemma corput_exact_value:
  assumes "0 \<le> n" and "2 \<le> b"
  shows "corput_exact n b = Some (Inr (vdc n b - 1 / 2))"
  using corput_loop_exact[OF assms(2) assms(1), of 1 0]
  by (simp add: corput_exact_def corput_with_def)

lemma rnd_neg_half: "rnd (- (1 / 2)) = - (1 / 2)"
proof -
  have e: "- (1 / 2) = of_int (- 1) * (2::rat) powi (- 1)" by (simp add: power_int_minus)
  show ?thesis by (intro rnd_exact[OF e]) simp_all
qed

lemma corput_zero: "corput 0 b = Some (Inr (- (1 / 2)))"
  by (simp add: corput_def corput_with_def corput_loop.simps rnd_neg_half)

lemma corput_loop_base1:
  assumes "corput_loop fl n b q d = Some y"
  shows "fl = rnd \<and> b = 1 \<and> d \<noteq> 0 \<longrightarrow> n = 0"
proof (rule corput_loop.raw_induct
    [where P = "\<lambda>fl n b q d y. fl = rnd \<and> b = 1 \<and> d \<noteq> 0 \<longrightarrow> n = 0", OF _ assms],
    goal_cases)
  case (1 cl fl n b q d y)
  show ?case
  proof (intro impI, rule ccontr)
    assume h: "fl = rnd \<and> b = 1 \<and> d \<noteq> 0" and n0: "n \<noteq> 0"
    have "int_truediv rnd (n mod 1) (d * 1) = Inr 0"
      using h by (simp add: int_truediv_def rnd_def overflows_def)
    with 1(2) h n0 have "cl rnd (n div 1) 1 (rnd (q + 0)) (d * 1) = Some y"
      by (simp add: Let_def)
    from 1(1)[OF this] h n0 show False by simp
  qed
qed

lemma corput_base1_diverges:
  assumes "0 < n"
  shows "corput n 1 = None"
proof (cases "corput_loop rnd n 1 0 1")
  case None
  then show ?thesis by (simp add: corput_def corput_with_def)
next
  case (Some y)
  from corput_loop_base1[OF this] assms show ?thesis by simp
qed

lemma corput_returns:
  assumes "0 \<le> n" and "2 \<le> b"
  shows "\<exists>v. corput n b = Some (Inr v) \<and> - (1 / 2) \<le> v"
proof -
  from corput_loop_returns[OF assms(2) assms(1), of 1 0]
  obtain q where q: "corput_loop rnd n b 0 1 = Some (Inr q)" "0 \<le> q" by auto
  have "- (1 / 2) \<le> rnd (q - 1 / 2)"
  proof (cases "q - 1 / 2 \<le> 0")
    case True
    have "- (2 powi (- 1)) \<le> rnd (q - 1 / 2)"
      using q(2) True by (intro rnd_ge_neg_pow2) (simp_all add: power_int_minus)
    then show ?thesis by (simp add: power_int_minus)
  next
    case False
    then have "0 \<le> rnd (q - 1 / 2)" by (intro rnd_nonneg) simp
    then show ?thesis by simp
  qed
  with q(1) show ?thesis by (simp add: corput_def corput_with_def)
qed

section \<open>Facts about the render loop\<close>

lemma RT_trace_ray_flag:
  "RT_trace_ray scene orig dir =
     (if fst (scene_ray_cast scene orig dir) then (1, 0, 0) else (0, 0, 0))"
  by (simp add: RT_trace_ray_def ray_cast_def split: prod.splits)

lemma for_loop_invariant:
  assumes "for_loop body is st = (r, st')" and "P st"
    and "\<And>i s r' s'. i \<in> set is \<Longrightarrow> P s \<Longrightarrow> body i s = (r', s') \<Longrightarrow> P s'"
  shows "P st'"
  using assms
proof (induction "is" arbitrary: st)
  case Nil
  then show ?case by simp
next
  case (Cons i "is")
  obtain r1 s1 where b: "body i st = (r1, s1)" by (cases "body i st")
  have P1: "P s1" using Cons.prems(2,3) b by auto
  show ?case
  proof (cases r1)
    case None
    with Cons.prems(1) b have "for_loop body is s1 = (r, st')" by simp
    then show ?thesis using P1 Cons.prems(3) by (intro Cons.IH[of s1]) auto
  next
    case (Some e)
    with Cons.prems(1) b have "st' = s1" by simp
    with P1 show ?thesis by simp
  qed
qed

lemma list_setitem_invariant:
  assumes "list_setitem xs i v = Inr ys" and "list_all Q xs" and "Q v"
  shows "length ys = length xs \<and> list_all Q ys"
proof -
  from assms(1) obtain j where ys: "ys = xs[j := v]"
    by (auto simp: list_setitem_def split: option.splits)
  have "set (xs[j := v]) \<subseteq> insert v (set xs)" by (rule set_update_subset_insert)
  with assms(2,3) show ?thesis unfolding ys by (auto simp: list_all_iff)
qed

lemma opaque_pixel_of_color: "opaque_pixel (pixel_of_color c)"
  by (cases c) (simp add: pixel_of_color_def opaque_pixel_def)

lemma pixel_body_buffer:
  assumes "pixel_body mu scene su s y screen_y x st = (r, st')" and "buffer_ok n st"
  shows "buffer_ok n st'"
proof (cases "pixel_ray_dir mu scene su s screen_y x")
  case (Inl e)
  with assms show ?thesis by (simp add: pixel_body_def)
next
  case (Inr d)
  define st1 where "st1 = st\<lparr>queries := queries st @ [(camera_location scene, d)]\<rparr>"
  define px where "px = pixel_of_color (RT_trace_ray scene (camera_location scene) d)"
  have ok1: "buffer_ok n st1" using assms(2) by (simp add: st1_def buffer_ok_def)
  show ?thesis
  proof (cases "list_setitem (rect st1) (y * size_x su + x) px")
    case (Inl e)
    with Inr assms(1) have "st' = st1"
      by (simp add: pixel_body_def Let_def st1_def px_def)
    with ok1 show ?thesis by simp
  next
    case r: (Inr rect')
    with Inr assms(1) have st': "st' = st1\<lparr>rect := rect'\<rparr>"
      by (simp add: pixel_body_def Let_def st1_def px_def)
    have px: "opaque_pixel px" unfolding px_def by (rule opaque_pixel_of_color)
    have "list_all opaque_pixel (rect st1)" using ok1 by (simp add: buffer_ok_def)
    from list_setitem_invariant[OF r this px] ok1
    show ?thesis by (simp add: st' buffer_ok_def)
  qed
qed

lemma row_body_buffer:
  assumes "row_body mu scene su s y st = (r, st')" and "buffer_ok n st"
  shows "buffer_ok n st'"
proof (cases "row_screen_y su y")
  case (Inl e)
  with assms show ?thesis by (simp add: row_body_def)
next
  case (Inr sy)
  with assms(1) have "for_loop (pixel_body mu scene su s y sy) (py_range (size_x su)) st = (r, st')"
    by (simp add: row_body_def)
  then show ?thesis using assms(2)
    by (rule for_loop_invariant) (rule pixel_body_buffer)
qed

lemma sample_body_buffer:
  assumes "sample_body mu scene su s st = (r, st')" and "buffer_ok n st"
  shows "buffer_ok n st'"
  using assms unfolding sample_body_def
  by (rule for_loop_invariant) (rule row_body_buffer)

lemma samples_buffer:
  assumes "for_loop (sample_body mu scene su) ss st = (r, st')" and "buffer_ok n st"
  shows "buffer_ok n st'"
  using assms by (rule for_loop_invariant) (rule sample_body_buffer)

lemma rnd_abs_le_one:
  assumes "\<bar>x\<bar> \<le> 1"
  shows "\<bar>rnd x\<bar> \<le> 1"
proof (cases "0 \<le> x")
  case True
  have "rnd x \<le> 2 powi 0" using assms True by (intro rnd_le_pow2) simp_all
  moreover have "0 \<le> rnd x" using True by (rule rnd_nonneg)
  ultimately show ?thesis by simp
next
  case False
  have "- (2 powi 0) \<le> rnd x" using assms False by (intro rnd_ge_neg_pow2) simp_all
  moreover have "rnd x \<le> 0"
  proof -
    have "(0::rat) = of_int 0 * ulp x" by simp
    with False show ?thesis by (intro rnd_le_multiple[of x 0 0]) simp_all
  qed
  ultimately show ?thesis by simp
qed

lemma corput_list_returns:
  assumes "2 \<le> base"
  shows "list_all (\<lambda>i. 0 \<le> i) is \<Longrightarrow>
    \<exists>cs. corput_list base d is = Some (Inr cs) \<and> length cs = length is"
proof (induction "is")
  case Nil
  then show ?case by simp
next
  case (Cons i "is")
  then have "0 \<le> i" by simp
  with corput_returns[of i base] assms
  obtain c where c: "corput i base = Some (Inr c)" by blast
  from Cons obtain cs where cs: "corput_list base d is = Some (Inr cs)" "length cs = length is"
    by auto
  show ?case by (simp add: c cs bind_run_def)
qed

lemma py_range_nonneg: "list_all (\<lambda>i. 0 \<le> i) (py_range n)"
  by (simp add: py_range_def list_all_iff)

lemma py_range_empty: "n \<le> 0 \<Longrightarrow> py_range n = []"
  by (simp add: py_range_def)

lemma length_py_range: "length (py_range (int k)) = k"
  by (simp add: py_range_def)

lemma render_setup_terminates: "\<exists>r. render_setup k scene = Some r"
proof -
  have cl: "\<exists>cs. corput_list b d (py_range (int k)) = Some (Inr cs)" if "2 \<le> b" for b d
    using corput_list_returns[OF that py_range_nonneg] by blast
  show ?thesis
  proof (cases "render_dims scene")
    case (Inl e)
    then show ?thesis by (simp add: render_setup_def bind_run_def)
  next
    case (Inr wh)
    obtain w h where wh: "wh = (w, h)" by (cases wh)
    show ?thesis
    proof (cases "float_truediv (camera_lens scene) (camera_sensor_width scene)")
      case (Inl e)
      then show ?thesis using Inr wh by (simp add: render_setup_def bind_run_def)
    next
      case fl: (Inr f)
      show ?thesis
      proof (cases "int_truediv rnd h w")
        case (Inl e)
        then show ?thesis using Inr wh fl by (simp add: render_setup_def bind_run_def)
      next
        case ar: (Inr a)
        show ?thesis
        proof (cases "int_truediv rnd 1 w")
          case (Inl e)
          then show ?thesis using Inr wh fl ar by (simp add: render_setup_def bind_run_def)
        next
          case dx: (Inr dx)
          show ?thesis
          proof (cases "float_div_int a h")
            case (Inl e)
            then show ?thesis using Inr wh fl ar dx by (simp add: render_setup_def bind_run_def)
          next
            case dy: (Inr dy)
            from cl[of 2 dx] obtain cx where cx: "corput_list 2 dx (py_range (int k)) = Some (Inr cx)"
              by auto
            from cl[of 3 dy] obtain cy where cy: "corput_list 3 dy (py_range (int k)) = Some (Inr cy)"
              by auto
            show ?thesis using Inr wh fl ar dx dy cx cy
              by (simp add: render_setup_def bind_run_def)
          qed
        qed
      qed
    qed
  qed
qed

lemma render_setup_fields:
  assumes "render_setup k scene = Some (Inr su)"
  shows "render_dims scene = Inr (width su, height su)"
    and "size_x su = width su" and "size_y su = height su"
proof -
  have "render_dims scene = Inr (width su, height su) \<and> size_x su = width su \<and> size_y su = height su"
    using assms
    by (auto simp: render_setup_def bind_run_def split: sum.splits option.splits prod.splits)
  then show "render_dims scene = Inr (width su, height su)"
    and "size_x su = width su" and "size_y su = height su" by simp_all
qed

lemma render_samples_terminates: "\<exists>res qs. render_samples k mu scene = Some (res, qs)"
proof -
  from render_setup_terminates obtain r where r: "render_setup k scene = Some r" by blast
  show ?thesis
  proof (cases r)
    case (Inl e)
    with r show ?thesis by (simp add: render_samples_def)
  next
    case (Inr su)
    with r show ?thesis
      by (simp add: render_samples_def Let_def split: prod.splits option.splits)
  qed
qed

lemma render_samples_buffer:
  assumes "render_samples k mu scene = Some (Inr buf, qs)"
    and "render_dims scene = Inr (w, h)"
  shows "length buf = nat (w * h) \<and> list_all opaque_pixel buf"
proof -
  from assms(1) obtain su where su: "render_setup k scene = Some (Inr su)"
    by (auto simp: render_samples_def split: option.splits sum.splits)
  from render_setup_fields[OF su] assms(2)
  have wh: "size_x su = w" "size_y su = h" by simp_all
  define st0 :: "'a render_state"
    where "st0 = \<lparr>rect = replicate (nat (w * h)) [0, 0, 0, 1], queries = []\<rparr>"
  have ok0: "buffer_ok (nat (w * h)) st0"
    by (simp add: st0_def buffer_ok_def opaque_pixel_def list_all_iff)
  obtain r st where l: "for_loop (sample_body mu scene su) (py_range (int k)) st0 = (r, st)"
    by (cases "for_loop (sample_body mu scene su) (py_range (int k)) st0")
  have ok: "buffer_ok (nat (w * h)) st" using l ok0 by (rule samples_buffer)
  from assms(1) su l wh have "r = None" "buf = rect st"
    by (auto simp: render_samples_def Let_def st0_def split: option.splits)
  with ok show ?thesis by (simp add: buffer_ok_def)
qed

lemma row_body_empty:
  assumes "size_x su \<le> 0" and "row_body mu scene su s y st = (r, st')"
  shows "st' = st"
  using assms by (cases "row_screen_y su y") (simp_all add: row_body_def py_range_empty)

lemma sample_body_empty:
  assumes "size_x su \<le> 0 \<or> size_y su \<le> 0" and "sample_body mu scene su s st = (r, st')"
  shows "st' = st"
proof (cases "size_y su \<le> 0")
  case True
  with assms(2) show ?thesis by (simp add: sample_body_def py_range_empty)
next
  case False
  with assms(1) have x: "size_x su \<le> 0" by simp
  from assms(2) have "for_loop (row_body mu scene su s) (py_range (size_y su)) st = (r, st')"
    by (simp add: sample_body_def)
  then show ?thesis
    by (rule for_loop_invariant[where P = "\<lambda>t. t = st"]) (auto dest: row_body_empty[OF x])
qed

lemma samples_empty:
  assumes "size_x su \<le> 0 \<or> size_y su \<le> 0"
    and "for_loop (sample_body mu scene su) ss st = (r, st')"
  shows "st' = st"
  using assms(2)
  by (rule for_loop_invariant[where P = "\<lambda>t. t = st"]) (auto dest: sample_body_empty[OF assms(1)])

lemma render_samples_no_queries:
  assumes "render_dims scene = Inr (w, h)" and "w \<le> 0 \<or> h \<le> 0"
  shows "\<exists>res. render_samples k mu scene = Some (res, [])"
proof -
  from render_setup_terminates obtain r where r: "render_setup k scene = Some r" by blast
  show ?thesis
  proof (cases r)
    case (Inl e)
    with r show ?thesis by (simp add: render_samples_def)
  next
    case (Inr su)
    from render_setup_fields[of k scene su] r Inr assms(1)
    have wh: "size_x su = w" "size_y su = h" by simp_all
    define st0 :: "'a render_state"
      where "st0 = \<lparr>rect = replicate (nat (w * h)) [0, 0, 0, 1], queries = []\<rparr>"
    obtain e st where l: "for_loop (sample_body mu scene su) (py_range (int k)) st0 = (e, st)"
      by (cases "for_loop (sample_body mu scene su) (py_range (int k)) st0")
    have "st = st0" using assms(2) wh by (intro samples_empty[OF _ l]) simp
    then have "queries st = []" by (simp add: st0_def)
    with r Inr l wh show ?thesis
      by (cases e) (simp_all add: render_samples_def Let_def st0_def)
  qed
qed

lemma render_setup_zero_size:
  assumes "render_dims scene = Inr (w, h)" and "w = 0 \<or> h = 0"
  shows "render_setup k scene = Some (Inl ZeroDivisionError)"
proof (cases "camera_sensor_width scene = 0")
  case True
  with assms(1) show ?thesis
    by (simp add: render_setup_def bind_run_def float_truediv_def)
next
  case sw: False
  show ?thesis
  proof (cases "w = 0")
    case True
    with assms(1) sw show ?thesis
      by (simp add: render_setup_def bind_run_def float_truediv_def int_truediv_def)
  next
    case False
    with assms(2) have h: "h = 0" by simp
    have "\<bar>1 / (of_int w :: rat)\<bar> \<le> 1"
    proof -
      have "1 \<le> \<bar>w\<bar>" using False by simp
      then have "(1::rat) \<le> \<bar>of_int w\<bar>" by (metis of_int_1 of_int_abs of_int_le_iff)
      then show ?thesis by (simp add: field_simps)
    qed
    then have "\<bar>rnd (1 / of_int w)\<bar> \<le> 1" by (rule rnd_abs_le_one)
    then have "\<not> overflows (rnd (1 / of_int w))" by (rule no_overflow)
    then have dx: "int_truediv rnd 1 w = Inr (rnd (1 / of_int w))"
      using False by (simp add: int_truediv_def)
    have ar: "int_truediv rnd 0 w = Inr 0"
      using False by (simp add: int_truediv_def rnd_zero overflows_def)
    have dy: "float_div_int 0 0 = Inl ZeroDivisionError"
      by (simp add: float_div_int_def float_of_int_def bind_err_def rnd_zero overflows_def
          float_truediv_def)
    show ?thesis
      using assms(1) sw h ar dx dy
      by (simp add: render_setup_def bind_run_def float_truediv_def)
  qed
qed

subsection \<open>Runs that cannot fail\<close>

lemma rnd_abs_le_pow2:
  assumes "\<bar>x\<bar> \<le> 2 powi k" and "- 1022 \<le> k"
  shows "\<bar>rnd x\<bar> \<le> 2 powi k"
proof (cases "0 \<le> x")
  case True
  have "rnd x \<le> 2 powi k" using assms True by (intro rnd_le_pow2) simp_all
  moreover have "0 \<le> rnd x" using True by (rule rnd_nonneg)
  ultimately show ?thesis by simp
next
  case False
  have "- (2 powi k) \<le> rnd x" using assms False by (intro rnd_ge_neg_pow2) simp_all
  moreover have "rnd x \<le> 0"
  proof -
    have "(0::rat) = of_int 0 * ulp x" by simp
    with False show ?thesis by (intro rnd_le_multiple[of x 0 0]) simp_all
  qed
  ultimately show ?thesis by simp
qed

lemma not_overflows_le:
  assumes "\<bar>x\<bar> \<le> 2 powi k" and "k < 1024"
  shows "\<not> overflows x"
proof (cases "x = 0")
  case True
  then show ?thesis by (simp add: overflows_def)
next
  case False
  with assms(1) have "binade x \<le> k" by (intro binade_le)
  with assms(2) show ?thesis by (simp add: overflows_def)
qed

lemma of_int_abs_le_pow2:
  assumes "\<bar>i\<bar> < 2 ^ 53"
  shows "\<bar>of_int i :: rat\<bar> \<le> 2 powi 53"
proof -
  have "\<bar>i\<bar> \<le> 2 ^ 53" using assms by simp
  then have "(of_int \<bar>i\<bar> :: rat) \<le> of_int (2 ^ 53)" by (simp only: of_int_le_iff)
  then show ?thesis by simp
qed

lemma float_of_int_exact:
  assumes "\<bar>i\<bar> < 2 ^ 53"
  shows "float_of_int i = Inr (of_int i)"
proof -
  have e: "(of_int i :: rat) = of_int i * 2 powi 0" by simp
  have r: "rnd (of_int i) = of_int i" using assms by (intro rnd_exact[OF e]) simp_all
  have "\<not> overflows (of_int i)"
    using of_int_abs_le_pow2[OF assms] by (rule not_overflows_le) simp
  with r show ?thesis by (simp add: float_of_int_def)
qed

lemma int_truediv_returns:
  assumes "b \<noteq> 0" and "\<bar>a\<bar> < 2 ^ 53"
  shows "\<exists>r. int_truediv rnd a b = Inr r"
proof -
  have "1 \<le> \<bar>b\<bar>" using assms(1) by simp
  then have b1: "(1::rat) \<le> \<bar>of_int b\<bar>" by (metis of_int_1 of_int_abs of_int_le_iff)
  have "\<bar>of_int a / of_int b :: rat\<bar> = \<bar>of_int a\<bar> / \<bar>of_int b\<bar>" by simp
  also have "\<dots> \<le> \<bar>of_int a\<bar>"
  proof -
    have "\<bar>of_int a :: rat\<bar> * 1 \<le> \<bar>of_int a\<bar> * \<bar>of_int b\<bar>"
      using b1 by (intro mult_left_mono) simp_all
    moreover have "(0::rat) < \<bar>of_int b\<bar>" using b1 by linarith
    ultimately show ?thesis by (simp add: pos_divide_le_eq)
  qed
  also have "\<dots> \<le> 2 powi 53" using assms(2) by (rule of_int_abs_le_pow2)
  finally have "\<bar>rnd (of_int a / of_int b)\<bar> \<le> 2 powi 53" by (rule rnd_abs_le_pow2) simp
  then have "\<not> overflows (rnd (of_int a / of_int b))" by (rule not_overflows_le) simp
  then show ?thesis using assms(1) by (simp add: int_truediv_def)
qed

lemma float_div_int_returns:
  assumes "i \<noteq> 0" and "\<bar>i\<bar> < 2 ^ 53"
  shows "\<exists>r. float_div_int a i = Inr r"
  using assms
  by (simp add: float_div_int_def float_of_int_exact bind_err_def float_truediv_def)

lemma int_sub_float_returns:
  assumes "\<bar>i\<bar> < 2 ^ 53"
  shows "\<exists>r. int_sub_float i a = Inr r"
  using assms by (simp add: int_sub_float_def float_of_int_exact bind_err_def)

lemma row_screen_y_returns:
  assumes "0 < height su" and "height su < 2 ^ 53" and "0 \<le> y" and "y < height su"
  shows "\<exists>r. row_screen_y su y = Inr r"
proof -
  from int_truediv_returns[of 2 "height su"] assms(1,2)
  obtain h2 where h2: "int_truediv rnd (height su) 2 = Inr h2" by auto
  from int_sub_float_returns[of y h2] assms(2-4)
  obtain d where d: "int_sub_float y h2 = Inr d" by auto
  from float_div_int_returns[of "height su" d] assms(1,2)
  obtain t where t: "float_div_int d (height su) = Inr t" by auto
  show ?thesis by (simp add: row_screen_y_def h2 d t bind_err_def)
qed

lemma list_getitem_returns:
  assumes "0 \<le> i" and "i < int (length xs)"
  shows "\<exists>v. list_getitem xs i = Inr v"
  using assms by (simp add: list_getitem_def list_index_def)

lemma list_setitem_returns:
  assumes "0 \<le> i" and "i < int (length xs)"
  shows "\<exists>ys. list_setitem xs i v = Inr ys"
  using assms by (simp add: list_setitem_def list_index_def)

lemma pixel_ray_dir_returns:
  assumes "0 < width su" and "width su < 2 ^ 53" and "0 \<le> x" and "x < width su"
    and "0 \<le> s" and "s < int (length (corput_x su))" and "s < int (length (corput_y su))"
  shows "\<exists>d. pixel_ray_dir mu scene su s screen_y x = Inr d"
proof -
  from int_truediv_returns[of 2 "width su"] assms(1,2)
  obtain w2 where w2: "int_truediv rnd (width su) 2 = Inr w2" by auto
  from int_sub_float_returns[of x w2] assms(2-4)
  obtain d where d: "int_sub_float x w2 = Inr d" by auto
  from float_div_int_returns[of "width su" d] assms(1,2)
  obtain sx where sx: "float_div_int d (width su) = Inr sx" by auto
  from list_getitem_returns[OF assms(5,6)]
  obtain cx where cx: "list_getitem (corput_x su) s = Inr cx" by auto
  from list_getitem_returns[OF assms(5,7)]
  obtain cy where cy: "list_getitem (corput_y su) s = Inr cy" by auto
  show ?thesis by (simp add: pixel_ray_dir_def w2 d sx cx cy bind_err_def Let_def)
qed

lemma pixel_index_bounds:
  assumes "0 \<le> y" and "y < h" and "0 \<le> x" and "x < (w::int)"
  shows "0 \<le> y * w + x" and "y * w + x < w * h"
proof -
  have w0: "0 < w" using assms(3,4) by simp
  show "0 \<le> y * w + x" using assms(1,3) w0 by simp
  have "y * w + x < y * w + w" using assms(4) by simp
  also have "\<dots> = (y + 1) * w" by (simp add: algebra_simps)
  also have "\<dots> \<le> h * w" using assms(2) w0 by (intro mult_right_mono) simp_all
  finally show "y * w + x < w * h" by (simp add: mult.commute)
qed

lemma for_loop_total:
  assumes "P st"
    and "\<And>i s. i \<in> set is \<Longrightarrow> P s \<Longrightarrow> \<exists>s'. body i s = (None, s') \<and> P s'"
  shows "\<exists>st'. for_loop body is st = (None, st') \<and> P st'"
  using assms
proof (induction "is" arbitrary: st)
  case Nil
  then show ?case by simp
next
  case (Cons i "is")
  from Cons.prems(2)[of i st] Cons.prems(1)
  obtain s1 where s1: "body i st = (None, s1)" "P s1" by auto
  from Cons.IH[OF s1(2)] Cons.prems(2)
  obtain st' where "for_loop body is s1 = (None, st')" "P st'" by auto
  with s1(1) show ?case by simp
qed

lemma set_py_range: "i \<in> set (py_range n) \<longleftrightarrow> 0 \<le> i \<and> i < n"
proof
  assume "i \<in> set (py_range n)"
  then obtain j where "j < nat n" "i = int j" by (auto simp: py_range_def)
  then show "0 \<le> i \<and> i < n" by auto
next
  assume "0 \<le> i \<and> i < n"
  then have "nat i < nat n" "i = int (nat i)" by auto
  then show "i \<in> set (py_range n)" unfolding py_range_def by (metis atLeast0LessThan imageI lessThan_iff set_map set_upt)
qed

lemma pixel_body_returns:
  assumes "0 < width su" and "width su < 2 ^ 53" and "size_x su = width su"
    and "0 \<le> x" and "x < width su" and "0 \<le> y" and "y < h"
    and "0 \<le> s" and "s < int (length (corput_x su))" and "s < int (length (corput_y su))"
    and "buffer_ok (nat (width su * h)) st"
  shows "\<exists>st'. pixel_body mu scene su s y screen_y x st = (None, st') \<and>
    buffer_ok (nat (width su * h)) st'"
proof -
  from pixel_ray_dir_returns[OF assms(1,2,4,5,8,9,10), of mu scene screen_y]
  obtain d where d: "pixel_ray_dir mu scene su s screen_y x = Inr d" by blast
  define st1 where "st1 = st\<lparr>queries := queries st @ [(camera_location scene, d)]\<rparr>"
  have len: "length (rect st1) = nat (width su * h)"
    using assms(11) by (simp add: st1_def buffer_ok_def)
  have "0 \<le> y * width su + x" and "y * width su + x < int (length (rect st1))"
    using pixel_index_bounds[OF assms(6,7,4,5)] len by simp_all
  from list_setitem_returns[OF this]
  obtain rect' where r: "list_setitem (rect st1) (y * size_x su + x)
      (pixel_of_color (RT_trace_ray scene (camera_location scene) d)) = Inr rect'"
    unfolding assms(3) by blast
  have run: "pixel_body mu scene su s y screen_y x st = (None, st1\<lparr>rect := rect'\<rparr>)"
    using d r by (simp add: pixel_body_def Let_def st1_def)
  from pixel_body_buffer[OF run assms(11)] run show ?thesis by blast
qed

lemma row_body_returns:
  assumes "0 < width su" and "width su < 2 ^ 53" and "size_x su = width su"
    and "0 < height su" and "height su < 2 ^ 53" and "0 \<le> y" and "y < height su"
    and "0 \<le> s" and "s < int (length (corput_x su))" and "s < int (length (corput_y su))"
    and "buffer_ok (nat (width su * height su)) st"
  shows "\<exists>st'. row_body mu scene su s y st = (None, st') \<and>
    buffer_ok (nat (width su * height su)) st'"
proof -
  from row_screen_y_returns[OF assms(4,5,6,7)]
  obtain sy where sy: "row_screen_y su y = Inr sy" by blast
  have "\<exists>st'. for_loop (pixel_body mu scene su s y sy) (py_range (size_x su)) st = (None, st') \<and>
      buffer_ok (nat (width su * height su)) st'"
  proof (rule for_loop_total[where P = "buffer_ok (nat (width su * height su))", OF assms(11)],
      goal_cases)
    case (1 x t)
    then have x: "0 \<le> x" "x < width su" by (simp_all add: set_py_range assms(3))
    from pixel_body_returns[OF assms(1,2,3) x assms(6,7,8,9,10) 1(2)]
    show ?case .
  qed
  then show ?thesis by (simp add: row_body_def sy)
qed

lemma sample_body_returns:
  assumes "0 < width su" and "width su < 2 ^ 53" and "size_x su = width su"
    and "0 < height su" and "height su < 2 ^ 53" and "size_y su = height su"
    and "0 \<le> s" and "s < int (length (corput_x su))" and "s < int (length (corput_y su))"
    and "buffer_ok (nat (width su * height su)) st"
  shows "\<exists>st'. sample_body mu scene su s st = (None, st') \<and>
    buffer_ok (nat (width su * height su)) st'"
  unfolding sample_body_def
proof (rule for_loop_total[where P = "buffer_ok (nat (width su * height su))", OF assms(10)],
    goal_cases)
  case (1 y t)
  then have y: "0 \<le> y" "y < height su" by (simp_all add: set_py_range assms(6))
  from row_body_returns[OF assms(1,2,3,4,5) y assms(7,8,9) 1(2)]
  show ?case .
qed

lemma corput_list_length:
  assumes "corput_list base d is = Some (Inr cs)"
  shows "length cs = length is"
  using assms
proof (induction "is" arbitrary: cs)
  case Nil
  then show ?case by simp
next
  case (Cons i "is")
  then show ?case
    by (auto simp: bind_run_def split: option.splits sum.splits)
qed

lemma render_setup_lengths:
  assumes "render_setup k scene = Some (Inr su)"
  shows "length (corput_x su) = k" and "length (corput_y su) = k"
proof -
  from assms obtain dx dy where
    "corput_list 2 dx (py_range (int k)) = Some (Inr (corput_x su))"
    "corput_list 3 dy (py_range (int k)) = Some (Inr (corput_y su))"
    by (auto simp: render_setup_def bind_run_def split: sum.splits option.splits prod.splits)
  from corput_list_length[OF this(1)] corput_list_length[OF this(2)]
  show "length (corput_x su) = k" and "length (corput_y su) = k"
    by (simp_all add: length_py_range)
qed

lemma render_setup_returns:
  assumes "render_dims scene = Inr (w, h)" and "camera_sensor_width scene \<noteq> 0"
    and "0 < w" and "w < 2 ^ 53" and "0 < h" and "h < 2 ^ 53"
  shows "\<exists>su. render_setup k scene = Some (Inr su)"
proof -
  from int_truediv_returns[of w h] assms(3,5,6)
  obtain ar where ar: "int_truediv rnd h w = Inr ar" by auto
  from int_truediv_returns[of w 1] assms(3)
  obtain dx where dx: "int_truediv rnd 1 w = Inr dx" by auto
  from float_div_int_returns[of h ar] assms(5,6)
  obtain dy where dy: "float_div_int ar h = Inr dy" by auto
  from corput_list_returns[OF _ py_range_nonneg, of 2 dx "int k"]
  obtain cx where cx: "corput_list 2 dx (py_range (int k)) = Some (Inr cx)" by auto
  from corput_list_returns[OF _ py_range_nonneg, of 3 dy "int k"]
  obtain cy where cy: "corput_list 3 dy (py_range (int k)) = Some (Inr cy)" by auto
  show ?thesis
    using assms(1,2) ar dx dy cx cy
    by (simp add: render_setup_def bind_run_def float_truediv_def)
qed

lemma render_samples_returns:
  assumes "render_dims scene = Inr (w, h)" and "camera_sensor_width scene \<noteq> 0"
    and "0 < w" and "w < 2 ^ 53" and "0 < h" and "h < 2 ^ 53"
  shows "\<exists>buf qs. render_samples k mu scene = Some (Inr buf, qs)"
proof -
  from render_setup_returns[OF assms]
  obtain su where su: "render_setup k scene = Some (Inr su)" by blast
  from render_setup_fields[OF su] assms(1)
  have f: "width su = w" "height su = h" "size_x su = width su" "size_y su = height su"
    by simp_all
  note len = render_setup_lengths[OF su]
  define st0 :: "'a render_state"
    where "st0 = \<lparr>rect = replicate (nat (width su * height su)) [0, 0, 0, 1], queries = []\<rparr>"
  have ok0: "buffer_ok (nat (width su * height su)) st0"
    by (simp add: st0_def buffer_ok_def opaque_pixel_def list_all_iff)
  have "\<exists>st'. for_loop (sample_body mu scene su) (py_range (int k)) st0 = (None, st') \<and>
      buffer_ok (nat (width su * height su)) st'"
  proof (rule for_loop_total[where P = "buffer_ok (nat (width su * height su))", OF ok0],
      goal_cases)
    case (1 s t)
    then have s: "0 \<le> s" "s < int (length (corput_x su))" "s < int (length (corput_y su))"
      by (simp_all add: set_py_range len)
    from sample_body_returns[of su, OF _ _ f(3) _ _ f(4) s 1(2)] assms(3-6) f(1,2)
    show ?case by simp
  qed
  then obtain st' where "for_loop (sample_body mu scene su) (py_range (int k)) st0 = (None, st')"
    by blast
  then show ?thesis
    using su f by (simp add: render_samples_def Let_def st0_def)
qed

subsection \<open>Accumulated rounding error of the loop\<close>

lemma ulp_le:
  assumes "x \<noteq> 0" and "\<bar>x\<bar> < 2 powi k" and "- 1021 \<le> k"
  shows "ulp x \<le> 2 powi (k - 53)"
proof -
  have "binade x < k" using assms(1,2) by (rule binade_less)
  then have "max (binade x) (- 1022) - 52 \<le> k - 53" using assms(3) by simp
  then show ?thesis unfolding ulp_def by (intro power_int_increasing) simp_all
qed

lemma rnd_error_below_one:
  assumes "\<bar>x\<bar> < 1"
  shows "\<bar>rnd x - x\<bar> \<le> 1 / 2 ^ 54"
proof (cases "x = 0")
  case True
  then show ?thesis by (simp add: rnd_zero)
next
  case False
  have "\<bar>x\<bar> < 2 powi 0" using assms by simp
  with False have "ulp x \<le> 2 powi (0 - 53)" by (rule ulp_le) simp
  then have "ulp x \<le> 1 / 2 ^ 53" by (simp add: power_int_minus_divide)
  with rnd_error[of x] show ?thesis by simp
qed

lemma digits_step:
  assumes "0 < n" and "2 \<le> b"
  shows "floorlog (nat b) (nat n) = Suc (floorlog (nat b) (nat (n div b)))"
  using assms by (subst compute_floorlog) (simp add: nat_div_distrib)

lemma digit_quotient_below_one:
  assumes "2 \<le> b" and "0 < d"
  shows "(of_int (n mod b) :: rat) / of_int (d * b) < 1"
proof -
  have "n mod b < b" using assms(1) by simp
  moreover have "b \<le> d * b" using assms by (simp add: mult_le_cancel_right1)
  ultimately have "n mod b < d * b" by linarith
  then have "(of_int (n mod b) :: rat) < of_int (d * b)" by (simp only: of_int_less_iff)
  moreover have "(0::rat) < of_int (d * b)" using assms by simp
  ultimately show ?thesis by (simp add: field_simps)
qed

lemma corput_loop_error:
  assumes "2 \<le> b"
  shows "0 \<le> n \<Longrightarrow> 0 < d \<Longrightarrow> 0 \<le> q \<Longrightarrow>
    q + vdc n b / of_int d + of_nat (floorlog (nat b) (nat n)) / 2 ^ 53 \<le> 1 \<Longrightarrow>
    \<exists>v. corput_loop rnd n b q d = Some (Inr v) \<and>
      \<bar>v - (q + vdc n b / of_int d)\<bar> \<le> of_nat (floorlog (nat b) (nat n)) / 2 ^ 53"
proof (induction "nat n" arbitrary: n q d rule: less_induct)
  case less
  show ?case
  proof (cases "n = 0")
    case True
    then show ?thesis by (simp add: corput_loop.simps vdc_zero)
  next
    case False
    with less.prems have npos: "0 < n" by simp
    have b0: "b \<noteq> 0" and db: "0 < d * b" and db0: "d * b \<noteq> 0"
      using assms less.prems(2) by simp_all
    define m' where "m' = floorlog (nat b) (nat (n div b))"
    have m: "floorlog (nat b) (nat n) = Suc m'"
      unfolding m'_def using npos assms by (rule digits_step)
    define x where "x = (of_int (n mod b) :: rat) / of_int (d * b)"
    define rest where "rest = vdc (n div b) b / of_int (d * b)"
    note xb = digit_quotient_bounds[OF assms less.prems(2), of n, folded x_def]
    have x1: "x < 1" unfolding x_def using assms less.prems(2) by (rule digit_quotient_below_one)
    have dr: "(of_int d :: rat) \<noteq> 0" and br: "(of_int b :: rat) \<noteq> 0"
      using less.prems(2) b0 by simp_all
    have split: "vdc n b / of_int d = x + rest"
      using dr br by (simp add: vdc_step[OF npos assms] x_def rest_def field_simps)
    have "(0::rat) < of_int (d * b)" using db by (simp only: of_int_0_less_iff)
    moreover have "0 \<le> vdc (n div b) b"
      using vdc_bounds[OF div_decreases(2)[OF npos assms] assms] by simp
    ultimately have rest0: "0 \<le> rest"
      unfolding rest_def by (intro divide_nonneg_pos)
    define h :: rat where "h = 1 / 2 ^ 54"
    define D :: rat where "D = of_nat m' / 2 ^ 53"
    have h2: "1 / 2 ^ 53 = 2 * h" by (simp add: h_def)
    have h0: "0 < h" by (simp add: h_def)
    have D0: "0 \<le> D" by (simp add: D_def)
    have DS: "of_nat (Suc m') / 2 ^ 53 = D + 2 * h"
      by (simp add: D_def h_def add_divide_distrib)
    have inv: "q + x + rest + (D + 2 * h) \<le> 1"
      using less.prems(4) unfolding split m DS by (simp add: add.assoc)
    define t where "t = rnd x"
    have t0: "0 \<le> t" unfolding t_def using xb(1) by (rule rnd_nonneg)
    have "\<bar>t - x\<bar> \<le> h"
      unfolding t_def h_def using xb(1) x1 by (intro rnd_error_below_one) simp
    then have te: "t - x \<le> h" "x - t \<le> h" by (simp_all add: abs_le_iff)
    have "\<bar>t\<bar> \<le> 1" unfolding t_def using xb by (intro rnd_abs_le_one) simp
    then have "\<not> overflows t" by (rule no_overflow)
    then have td: "int_truediv rnd (n mod b) (d * b) = Inr t"
      using db0 by (simp add: int_truediv_def Let_def t_def x_def)
    define q' where "q' = rnd (q + t)"
    have q'0: "0 \<le> q'" unfolding q'_def using less.prems(3) t0 by (intro rnd_nonneg) simp
    have "q + t < 1" using inv rest0 D0 h0 te by linarith
    with less.prems(3) t0 have "\<bar>q + t\<bar> < 1" by simp
    then have "\<bar>q' - (q + t)\<bar> \<le> h"
      unfolding q'_def h_def by (rule rnd_error_below_one)
    then have q'e: "q' - (q + t) \<le> h" "(q + t) - q' \<le> h" by (simp_all add: abs_le_iff)
    have "q' + rest + D \<le> 1" using inv te q'e by linarith
    then have pre: "q' + vdc (n div b) b / of_int (d * b) +
        of_nat (floorlog (nat b) (nat (n div b))) / 2 ^ 53 \<le> 1"
      by (simp add: rest_def m'_def D_def)
    from less.hyps[of "n div b" "d * b" q'] div_decreases[OF npos assms] db q'0 pre
    obtain v where v: "corput_loop rnd (n div b) b q' (d * b) = Some (Inr v)"
      "\<bar>v - (q' + rest)\<bar> \<le> D"
      by (auto simp: rest_def m'_def D_def)
    have run: "corput_loop rnd n b q d = Some (Inr v)"
      using False b0 td v(1) by (subst corput_loop.simps) (simp add: Let_def q'_def)
    from v(2) have ve: "v - (q' + rest) \<le> D" "(q' + rest) - v \<le> D"
      by (simp_all add: abs_le_iff)
    have "\<bar>v - (q + (x + rest))\<bar> \<le> D + 2 * h"
      unfolding abs_le_iff using ve te q'e by (intro conjI) linarith+
    then have "\<bar>v - (q + vdc n b / of_int d)\<bar> \<le> of_nat (floorlog (nat b) (nat n)) / 2 ^ 53"
      unfolding split m DS .
    with run show ?thesis by blast
  qed
qed

lemma vdc_upper:
  assumes "0 \<le> n" and "2 \<le> b"
  shows "vdc n b \<le> 1 - 1 / of_int b ^ floorlog (nat b) (nat n)"
  using assms(1)
proof (induction "nat n" arbitrary: n rule: less_induct)
  case less
  show ?case
  proof (cases "n = 0")
    case True
    then show ?thesis by (simp add: vdc_zero floorlog_def)
  next
    case False
    with less.prems have npos: "0 < n" by simp
    define m' where "m' = floorlog (nat b) (nat (n div b))"
    have m: "floorlog (nat b) (nat n) = Suc m'"
      unfolding m'_def using npos assms(2) by (rule digits_step)
    have bpos: "(0::rat) < of_int b" using assms(2) by simp
    have IH: "vdc (n div b) b \<le> 1 - 1 / of_int b ^ m'"
      unfolding m'_def using less.hyps[of "n div b"] div_decreases[OF npos assms(2)] by simp
    have "n mod b \<le> b - 1" using assms(2) pos_mod_bound[of b n] by simp
    then have "(of_int (n mod b) :: rat) \<le> of_int (b - 1)" by (simp only: of_int_le_iff)
    then have "of_int (n mod b) + vdc (n div b) b \<le> (of_int b :: rat) - 1 / of_int b ^ m'"
      using IH by simp
    then have "(of_int (n mod b) + vdc (n div b) b) / of_int b
        \<le> ((of_int b :: rat) - 1 / of_int b ^ m') / of_int b"
      using bpos by (simp add: divide_right_mono)
    also have "\<dots> = 1 - 1 / of_int b ^ Suc m'"
      using bpos by (simp add: field_simps)
    finally show ?thesis
      by (simp add: vdc_step[OF npos assms(2)] m add_divide_distrib)
  qed
qed

lemma small_index_digits:
  assumes "0 \<le> n" and "n < 2 ^ 24" and "2 \<le> b"
  shows "floorlog (nat b) (nat n) \<le> 24" and "vdc n b \<le> 1 - 1 / 2 ^ 48"
proof -
  have B: "1 < nat b" using assms(3) by simp
  have "(2::nat) ^ 24 \<le> nat b ^ 24" using assms(3) by (intro power_mono) simp_all
  moreover have "nat n < 2 ^ 24" using assms(1,2) by (simp add: nat_less_iff)
  ultimately have "nat n < nat b ^ 24" by linarith
  then show len: "floorlog (nat b) (nat n) \<le> 24" using B by (intro floorlog_leI) simp_all
  show "vdc n b \<le> 1 - 1 / 2 ^ 48"
  proof (cases "n < b")
    case True
    show ?thesis
    proof (cases "n = 0")
      case True
      then show ?thesis by (simp add: vdc_zero)
    next
      case False
      with assms(1) have npos: "0 < n" by simp
      have "n div b = 0" "n mod b = n" using True assms(1) by simp_all
      then have v: "vdc n b = of_int n / of_int b"
        by (simp add: vdc_step[OF npos assms(3)] vdc_zero)
      have "n + 1 \<le> b" using True by simp
      then have b1: "(of_int n :: rat) + 1 \<le> of_int b"
        by (metis of_int_1 of_int_add of_int_le_iff)
      have n0: "(0::rat) < of_int n" using npos by simp
      have "(of_int n :: rat) / of_int b \<le> of_int n / (of_int n + 1)"
        using b1 n0 by (intro divide_left_mono) (simp_all add: mult_pos_pos)
      also have "\<dots> = 1 - 1 / (of_int n + 1)" using n0 by (simp add: field_simps)
      also have "\<dots> \<le> 1 - 1 / 2 ^ 48"
      proof -
        have "n + 1 \<le> 2 ^ 48" using assms(2) by simp
        then have "(of_int (n + 1) :: rat) \<le> of_int (2 ^ 48)" by (simp only: of_int_le_iff)
        then have "(of_int n :: rat) + 1 \<le> 2 ^ 48" by simp
        then have "1 / (2 ^ 48 :: rat) \<le> 1 / (of_int n + 1)"
          using n0 by (intro divide_left_mono) (simp_all add: mult_pos_pos)
        then show ?thesis by simp
      qed
      finally show ?thesis by (simp add: v)
    qed
  next
    case False
    then have bn: "b \<le> n" by simp
    then have npos: "0 < n" using assms(3) by simp
    define m where "m = floorlog (nat b) (nat n)"
    have "nat b ^ (m - 1) \<le> nat n"
      unfolding m_def using floorlog_bounds[of "nat n" "nat b"] npos B by simp
    moreover have "0 < m" unfolding m_def using npos B by (simp add: floorlog_def)
    ultimately have "nat b ^ m \<le> nat b * nat n"
      by (cases m) simp_all
    also have "\<dots> \<le> nat n * nat n" using bn assms(3) by (intro mult_right_mono) simp_all
    also have "\<dots> < 2 ^ 24 * 2 ^ 24"
      using \<open>nat n < 2 ^ 24\<close> npos by (intro mult_strict_mono) simp_all
    finally have "nat b ^ m < 2 ^ 48" by simp
    then have "int (nat b ^ m) < int (2 ^ 48)" by (simp only: of_nat_less_iff)
    then have "b ^ m < 2 ^ 48" using assms(3) by simp
    then have "(of_int (b ^ m) :: rat) \<le> of_int (2 ^ 48)" by (simp only: of_int_le_iff)
    then have le: "(of_int b :: rat) ^ m \<le> 2 ^ 48" by simp
    have "(0::rat) < of_int b ^ m" using assms(3) by simp
    with le have "1 / (2 ^ 48 :: rat) \<le> 1 / of_int b ^ m"
      by (intro divide_left_mono) (simp_all add: mult_pos_pos)
    with vdc_upper[OF assms(1,3)] show ?thesis by (simp add: m_def)
  qed
qed

lemma half_below_multiple_of_ulp:
  assumes "x \<noteq> 0" and "\<bar>x\<bar> \<le> 1 / 2"
  shows "\<exists>K. 1 / 2 - 1 / 2 ^ 53 = of_int K * ulp x"
proof -
  define j where "j = max (binade x) (- 1022) - 52"
  have "\<bar>x\<bar> \<le> 2 powi (- 1)" using assms(2) by (simp add: power_int_minus_divide)
  with assms(1) have "binade x \<le> - 1" by (rule binade_le)
  then have j: "0 \<le> - 53 - j" by (simp add: j_def)
  have "(1::rat) / 2 - 1 / 2 ^ 53 = of_int (2 ^ 52 - 1) * 2 powi (- 53)"
    by (simp add: power_int_minus_divide)
  also have "(2::rat) powi (- 53) = 2 powi (- 53 - j) * 2 powi j"
    by (simp add: power_int_add[symmetric])
  also have "(2::rat) powi (- 53 - j) = of_int (2 ^ nat (- 53 - j))"
    using j by (simp add: power_int_nonneg_exp)
  finally have "(1::rat) / 2 - 1 / 2 ^ 53 = of_int ((2 ^ 52 - 1) * 2 ^ nat (- 53 - j)) * ulp x"
    by (simp add: ulp_def j_def mult.assoc)
  then show ?thesis by blast
qed

lemma corput_small_index:
  assumes "0 \<le> n" and "n < 2 ^ 24" and "2 \<le> b"
  shows "\<exists>v. corput n b = Some (Inr v) \<and> - (1 / 2) \<le> v \<and> v < 1 / 2 \<and>
    \<bar>v + 1 / 2 - vdc n b\<bar> \<le> 25 / 2 ^ 53"
proof -
  note sd = small_index_digits[OF assms]
  define m where "m = floorlog (nat b) (nat n)"
  have mr: "(of_nat m :: rat) / 2 ^ 53 \<le> 24 / 2 ^ 53"
    using sd(1) by (simp add: m_def divide_right_mono)
  have "0 + vdc n b / of_int 1 + of_nat (floorlog (nat b) (nat n)) / 2 ^ 53 \<le> (1::rat)"
    using sd(2) mr by (simp add: m_def)
  from corput_loop_error[OF assms(3) assms(1) _ _ this]
  obtain u where u: "corput_loop rnd n b 0 1 = Some (Inr u)"
    "\<bar>u - vdc n b\<bar> \<le> of_nat m / 2 ^ 53"
    by (auto simp: m_def)
  from corput_loop_returns[OF assms(3) assms(1), of 1 0] u(1) have u0: "0 \<le> u" by simp
  define x where "x = u - 1 / 2"
  have ue: "\<bar>u - vdc n b\<bar> \<le> 24 / 2 ^ 53" using u(2) mr by linarith
  have c: "(24::rat) / 2 ^ 53 + 1 / 2 ^ 53 \<le> 1 / 2 ^ 48" by simp
  have "u \<le> vdc n b + 24 / 2 ^ 53" using ue by (simp only: abs_le_iff) linarith
  with sd(2) c have "u \<le> 1 - 1 / 2 ^ 53" by linarith
  then have xu: "x \<le> 1 / 2 - 1 / 2 ^ 53" unfolding x_def by linarith
  have xl: "- (1 / 2) \<le> x" using u0 by (simp add: x_def)
  have xa: "\<bar>x\<bar> \<le> 1 / 2" using xu xl by (simp add: abs_le_iff)
  have run: "corput n b = Some (Inr (rnd x))"
    using u(1) by (simp add: corput_def corput_with_def x_def)
  have lo: "- (1 / 2) \<le> rnd x"
  proof (cases "x \<le> 0")
    case True
    have "- (2 powi (- 1)) \<le> rnd x"
      using xl True by (intro rnd_ge_neg_pow2) (simp_all add: power_int_minus_divide)
    then show ?thesis by (simp add: power_int_minus_divide)
  next
    case False
    then have "0 \<le> rnd x" by (intro rnd_nonneg) simp
    then show ?thesis by simp
  qed
  have up: "rnd x \<le> 1 / 2 - 1 / 2 ^ 53"
  proof (cases "x = 0")
    case True
    then show ?thesis by (simp add: rnd_zero)
  next
    case False
    from half_below_multiple_of_ulp[OF False xa]
    obtain K where "1 / 2 - 1 / 2 ^ 53 = of_int K * ulp x" by blast
    with xu False show ?thesis by (rule rnd_le_multiple)
  qed
  define h :: rat where "h = 1 / 2 ^ 54"
  have xe: "x = u - 1 / 2" by (simp add: x_def)
  have "\<bar>x\<bar> < 1" using xa by simp
  then have "\<bar>rnd x - x\<bar> \<le> h" unfolding h_def by (rule rnd_error_below_one)
  then have re: "rnd x - x \<le> h" "x - rnd x \<le> h" by (simp_all add: abs_le_iff)
  have "\<bar>u - vdc n b\<bar> \<le> 48 * h" using ue by (simp add: h_def)
  then have ue': "u - vdc n b \<le> 48 * h" "vdc n b - u \<le> 48 * h" by (simp_all add: abs_le_iff)
  have "\<bar>rnd x + 1 / 2 - vdc n b\<bar> \<le> 50 * h"
    unfolding abs_le_iff using re ue' xe by (intro conjI) linarith+
  then have err: "\<bar>rnd x + 1 / 2 - vdc n b\<bar> \<le> 25 / 2 ^ 53" by (simp add: h_def)
  have "rnd x < 1 / 2" using up by simp
  with run lo err show ?thesis by blast
qed

subsection \<open>The directions handed to the scene query\<close>

lemma pixel_ray_dir_normalized:
  assumes "pixel_ray_dir mu scene su s screen_y x = Inr d"
  shows "d \<in> range (normalized mu)"
  using assms
  by (auto simp: pixel_ray_dir_def bind_err_def Let_def split: sum.splits)

lemma pixel_body_queries:
  assumes "pixel_body mu scene su s y screen_y x st = (r, st')"
    and "list_all (\<lambda>q. fst q = camera_location scene \<and> snd q \<in> range (normalized mu)) (queries st)"
  shows "list_all (\<lambda>q. fst q = camera_location scene \<and> snd q \<in> range (normalized mu)) (queries st')"
proof (cases "pixel_ray_dir mu scene su s screen_y x")
  case (Inl e)
  with assms show ?thesis by (simp add: pixel_body_def)
next
  case (Inr d)
  from pixel_ray_dir_normalized[OF Inr] have "d \<in> range (normalized mu)" .
  with assms Inr show ?thesis
    by (auto simp: pixel_body_def Let_def split: sum.splits)
qed

lemma render_queries_normalized:
  assumes "render_samples k mu scene = Some (res, qs)"
  shows "list_all (\<lambda>q. fst q = camera_location scene \<and> snd q \<in> range (normalized mu)) qs"
proof (cases "render_setup k scene")
  case None
  with assms show ?thesis by (simp add: render_samples_def)
next
  case (Some r)
  show ?thesis
  proof (cases r)
    case (Inl e)
    with Some assms show ?thesis by (auto simp: render_samples_def)
  next
    case (Inr su)
    let ?P = "\<lambda>st. list_all (\<lambda>q. fst q = camera_location scene \<and> snd q \<in> range (normalized mu))
      (queries st)"
    define st0 :: "'a render_state"
      where "st0 = \<lparr>rect = replicate (nat (size_x su * size_y su)) [0, 0, 0, 1], queries = []\<rparr>"
    obtain e st where l: "for_loop (sample_body mu scene su) (py_range (int k)) st0 = (e, st)"
      by (cases "for_loop (sample_body mu scene su) (py_range (int k)) st0")
    have row: "?P t'" if "row_body mu scene su s y t = (r', t')" and "?P t" for s y t r' t'
    proof (cases "row_screen_y su y")
      case (Inl e)
      with that show ?thesis by (simp add: row_body_def)
    next
      case (Inr sy)
      with that(1)
      have "for_loop (pixel_body mu scene su s y sy) (py_range (size_x su)) t = (r', t')"
        by (simp add: row_body_def)
      then show ?thesis using that(2)
        by (rule for_loop_invariant) (rule pixel_body_queries)
    qed
    have sample: "?P t'" if "sample_body mu scene su s t = (r', t')" and "?P t" for s t r' t'
      using that unfolding sample_body_def by (rule for_loop_invariant) (rule row)
    have "?P st0" by (simp add: st0_def)
    with l have "?P st" by (rule for_loop_invariant) (rule sample)
    moreover have "qs = queries st"
      using assms Some Inr l by (cases e) (simp_all add: render_samples_def Let_def st0_def)
    ultimately show ?thesis by simp
  qed
qed

subsection \<open>The layout of the buffer\<close>

lemma for_loop_upt:
  assumes "for_loop body (map int [m..<n]) st = (None, st')" and "m \<le> n" and "P m st"
    and "\<And>i t t'. m \<le> i \<Longrightarrow> i < n \<Longrightarrow> P i t \<Longrightarrow> body (int i) t = (None, t') \<Longrightarrow> P (Suc i) t'"
  shows "P n st'"
  using assms
proof (induction "n - m" arbitrary: m st)
  case 0
  then show ?case by simp
next
  case (Suc k)
  then have mn: "m < n" by simp
  then have l: "[m..<n] = m # [Suc m..<n]" by (rule upt_conv_Cons)
  obtain r1 s1 where b: "body (int m) st = (r1, s1)" by (cases "body (int m) st")
  from Suc.prems(1) b have r1: "r1 = None" unfolding l by (cases r1) simp_all
  from Suc.prems(1) b r1 have rest: "for_loop body (map int [Suc m..<n]) s1 = (None, st')"
    unfolding l by simp
  have P1: "P (Suc m) s1" using Suc.prems(3) b mn unfolding r1 by (intro Suc.prems(4)[of m st s1]) simp_all
  have k: "k = n - Suc m" using Suc.hyps(2) by simp
  show ?case
  proof (rule Suc.hyps(1)[OF k rest _ P1], goal_cases)
    case 1
    from mn show ?case by simp
  next
    case (2 i t t')
    then show ?case by (intro Suc.prems(4)[of i t t']) simp_all
  qed
qed

lemma list_setitem_nat:
  assumes "list_setitem xs (int j) v = Inr ys"
  shows "j < length xs" and "ys = xs[j := v]"
  using assms by (auto simp: list_setitem_def list_index_def split: if_splits)

lemma pixel_body_written:
  assumes run: "pixel_body mu scene su s y screen_y x st = (None, st')"
    and sy: "row_screen_y su y = Inr screen_y"
    and W: "size_x su = int nW" and x: "x = int i" and i: "i < nW" and y: "y = int k"
    and inv: "written mu scene su s q (k * nW + i) st"
  shows "written mu scene su s q (k * nW + Suc i) st'"
proof -
  let ?cam = "camera_location scene"
  from run obtain d where d: "pixel_ray_dir mu scene su s screen_y x = Inr d"
    by (cases "pixel_ray_dir mu scene su s screen_y x") (simp_all add: pixel_body_def)
  let ?p = "pixel_of_color (RT_trace_ray scene ?cam d)"
  have idx: "y * size_x su + x = int (k * nW + i)" by (simp add: W x y)
  from run d obtain rect' where upd: "list_setitem (rect st) (int (k * nW + i)) ?p = Inr rect'"
    and st': "st' = st\<lparr>queries := queries st @ [(?cam, d)], rect := rect'\<rparr>"
    unfolding pixel_body_def idx by (auto simp: Let_def split: sum.splits)
  note u = list_setitem_nat[OF upd]
  have ray: "ray_of_pixel mu scene su s (int k) (int i) = Inr d"
    using sy d by (simp add: ray_of_pixel_def bind_err_def x y)
  then have hit: "pixel_hit mu scene su s (int k) (int i) = fst (scene_ray_cast scene ?cam d)"
    by (simp add: pixel_hit_def ray_cast_def)
  have p: "?p = (if pixel_hit mu scene su s (int k) (int i) then [1, 0, 0, 1] else [0, 0, 0, 1])"
    by (simp add: hit RT_trace_ray_flag pixel_of_color_def)
  have dm: "(k * nW + i) div nW = k" "(k * nW + i) mod nW = i" using i by simp_all
  have len: "length (queries st) = q + (k * nW + i)" using inv by (simp add: written_def)
  show ?thesis
    unfolding written_def
  proof (intro conjI allI impI)
    show "length (queries st') = q + (k * nW + Suc i)" using len by (simp add: st')
  next
    fix j assume "j < k * nW + Suc i"
    then consider "j < k * nW + i" | "j = k * nW + i" by force
    then show "ray_of_pixel mu scene su s (int (j div nat (size_x su))) (int (j mod nat (size_x su))) =
        Inr (snd (queries st' ! (q + j)))"
    proof cases
      case 1
      with inv len show ?thesis by (simp add: written_def st' nth_append)
    next
      case 2
      with len ray dm show ?thesis by (simp add: st' nth_append W)
    qed
  next
    fix j assume "j < k * nW + Suc i"
    then consider "j < k * nW + i" | "j = k * nW + i" by force
    then show "fst (queries st' ! (q + j)) = camera_location scene"
    proof cases
      case 1
      with inv len show ?thesis by (simp add: written_def st' nth_append)
    next
      case 2
      with len show ?thesis by (simp add: st' nth_append)
    qed
  next
    fix j assume "j < k * nW + Suc i"
    then consider "j < k * nW + i" | "j = k * nW + i" by force
    then show "rect st' ! j =
        (if pixel_hit mu scene su s (int (j div nat (size_x su))) (int (j mod nat (size_x su)))
         then [1, 0, 0, 1] else [0, 0, 0, 1])"
    proof cases
      case 1
      with inv show ?thesis by (simp add: written_def st' u(2))
    next
      case 2
      with u(1) p dm show ?thesis by (simp add: st' u(2) W)
    qed
  qed
qed

lemma row_body_written:
  assumes run: "row_body mu scene su s y st = (None, st')"
    and W: "size_x su = int nW" and y: "y = int k"
    and inv: "written mu scene su s q (k * nW) st"
  shows "written mu scene su s q (Suc k * nW) st'"
proof -
  from run obtain screen_y where sy: "row_screen_y su y = Inr screen_y"
    and loop: "for_loop (pixel_body mu scene su s y screen_y) (py_range (size_x su)) st = (None, st')"
    by (cases "row_screen_y su y") (simp_all add: row_body_def)
  from loop have loop': "for_loop (pixel_body mu scene su s y screen_y) (map int [0..<nW]) st = (None, st')"
    by (simp add: py_range_def W)
  have "written mu scene su s q (k * nW + nW) st'"
  proof (rule for_loop_upt[where P = "\<lambda>i. written mu scene su s q (k * nW + i)", OF loop'], goal_cases)
    case 1
    show ?case by simp
  next
    case 2
    from inv show ?case by simp
  next
    case (3 i t t')
    from pixel_body_written[OF 3(4) sy W refl 3(2) y 3(3)] show ?case .
  qed
  then show ?thesis by (simp add: add.commute)
qed

lemma sample_body_written:
  assumes run: "sample_body mu scene su s st = (None, st')"
    and W: "size_x su = int nW"
    and q: "length (queries st) = q"
  shows "written mu scene su s q (nat (size_y su) * nW) st'"
proof -
  from run have loop: "for_loop (row_body mu scene su s) (map int [0..<nat (size_y su)]) st = (None, st')"
    by (simp add: sample_body_def py_range_def)
  show ?thesis
  proof (rule for_loop_upt[where P = "\<lambda>k. written mu scene su s q (k * nW)", OF loop], goal_cases)
    case 1
    show ?case by simp
  next
    case 2
    from q show ?case by (simp add: written_def)
  next
    case (3 k t t')
    from row_body_written[OF 3(4) W refl 3(3)] show ?case .
  qed
qed

lemma render_written:
  assumes env: "render_setup 1 scene = Some (Inr su)"
    and run: "render mu scene = Some (Inr buf, qs)"
  shows "\<exists>st. buf = rect st \<and> qs = queries st \<and>
    written mu scene su 0 0 (nat (size_y su) * nat (size_x su)) st"
proof (cases "0 \<le> size_x su")
  case True
  define st0 :: "'a render_state"
    where "st0 = \<lparr>rect = replicate (nat (size_x su * size_y su)) [0, 0, 0, 1], queries = []\<rparr>"
  obtain r st where s: "sample_body mu scene su 0 st0 = (r, st)"
    by (cases "sample_body mu scene su 0 st0")
  from env have env': "render_setup (Suc 0) scene = Some (Inr su)" by simp
  from run s have r: "r = None" and buf: "buf = rect st" and qs: "qs = queries st"
    by (cases r; simp add: render_def render_samples_def env' Let_def py_range_def st0_def)+
  from True have W: "size_x su = int (nat (size_x su))" by simp
  have "length (queries st0) = 0" by (simp add: st0_def)
  from sample_body_written[OF s[unfolded r] W this] buf qs show ?thesis by blast
next
  case False
  define st0 :: "'a render_state"
    where "st0 = \<lparr>rect = replicate (nat (size_x su * size_y su)) [0, 0, 0, 1], queries = []\<rparr>"
  obtain r st where s: "sample_body mu scene su 0 st0 = (r, st)"
    by (cases "sample_body mu scene su 0 st0")
  from env have env': "render_setup (Suc 0) scene = Some (Inr su)" by simp
  from run s have r: "r = None" and buf: "buf = rect st" and qs: "qs = queries st"
    by (cases r; simp add: render_def render_samples_def env' Let_def py_range_def st0_def)+
  from False have z: "nat (size_x su) = 0" by simp
  from render_samples_no_queries[of scene "size_x su" "size_y su" 1 mu] render_setup_fields[OF env]
    run False
  have "qs = []" by (auto simp: render_def)
  with qs have "written mu scene su 0 0 (nat (size_y su) * nat (size_x su)) st"
    by (simp add: written_def z)
  with buf qs show ?thesis by blast
qed

lemma render_row_major:
  assumes env: "render_setup 1 scene = Some (Inr su)"
    and run: "render mu scene = Some (Inr buf, qs)"
    and x: "0 \<le> x" "x < size_x su" and y: "0 \<le> y" "y < size_y su"
  shows "buf ! nat (y * size_x su + x) =
      (if pixel_hit mu scene su 0 y x then [1, 0, 0, 1] else [0, 0, 0, 1])"
    and "ray_of_pixel mu scene su 0 y x = Inr (snd (qs ! nat (y * size_x su + x)))"
    and "fst (qs ! nat (y * size_x su + x)) = camera_location scene"
    and "length qs = nat (size_x su * size_y su)"
proof -
  define nW where "nW = nat (size_x su)"
  define nH where "nH = nat (size_y su)"
  define j where "j = nat y * nW + nat x"
  from render_written[OF env run]
  obtain st where st: "buf = rect st" "qs = queries st" "written mu scene su 0 0 (nH * nW) st"
    unfolding nW_def nH_def by blast
  have xn: "nat x < nW" and yn: "nat y < nH" using x y by (simp_all add: nW_def nH_def)
  have "j < nat y * nW + nW" using xn by (simp add: j_def)
  also have "\<dots> = Suc (nat y) * nW" by simp
  also have "\<dots> \<le> nH * nW" using yn by (intro mult_le_mono1) simp
  finally have j: "j < nH * nW" .
  have dm: "j div nW = nat y" "j mod nW = nat x" using xn by (simp_all add: j_def)
  have idx: "nat (y * size_x su + x) = j"
    using x y by (simp add: j_def nW_def nat_add_distrib nat_mult_distrib)
  from st(3) j
  have a: "ray_of_pixel mu scene su 0 (int (j div nW)) (int (j mod nW)) = Inr (snd (queries st ! j))"
    and b: "fst (queries st ! j) = camera_location scene"
    and c: "rect st ! j =
      (if pixel_hit mu scene su 0 (int (j div nW)) (int (j mod nW)) then [1, 0, 0, 1] else [0, 0, 0, 1])"
    unfolding written_def nW_def by simp_all
  from c show "buf ! nat (y * size_x su + x) =
      (if pixel_hit mu scene su 0 y x then [1, 0, 0, 1] else [0, 0, 0, 1])"
    unfolding idx st(1) dm using x(1) y(1) by simp
  from a show "ray_of_pixel mu scene su 0 y x = Inr (snd (qs ! nat (y * size_x su + x)))"
    unfolding idx st(2) dm using x(1) y(1) by simp
  from b show "fst (qs ! nat (y * size_x su + x)) = camera_location scene"
    unfolding idx st(2) .
  from st(3) show "length qs = nat (size_x su * size_y su)"
    unfolding written_def st(2) using x y
    by (simp add: nW_def nH_def nat_mult_distrib mult.commute)
qed

subsection \<open>The magnitude of the directions\<close>

lemma planar_rotation:
  fixes a b t :: real
  shows "(a * cos t - b * sin t)\<^sup>2 + (a * sin t + b * cos t)\<^sup>2 = a\<^sup>2 + b\<^sup>2"
proof -
  have "(a * c - b * s)\<^sup>2 + (a * s + b * c)\<^sup>2 = (a\<^sup>2 + b\<^sup>2) * (s\<^sup>2 + c\<^sup>2)" for s c :: real
    by (simp add: power2_eq_square algebra_simps)
  from this[of "cos t" "sin t"] show ?thesis by simp
qed

lemma magnitude_rotate_x: "magnitude (spec_rotate_x t v) = magnitude v"
proof (cases v)
  case (fields a b c)
  have "a\<^sup>2 + (b * cos t - c * sin t)\<^sup>2 + (b * sin t + c * cos t)\<^sup>2 = a\<^sup>2 + b\<^sup>2 + c\<^sup>2"
    using planar_rotation[of b t c] by simp
  then show ?thesis by (simp add: fields magnitude_def spec_rotate_x_def)
qed

lemma magnitude_rotate_y: "magnitude (spec_rotate_y t v) = magnitude v"
proof (cases v)
  case (fields a b c)
  have "(a * cos t + c * sin t)\<^sup>2 + b\<^sup>2 + (c * cos t - a * sin t)\<^sup>2 = a\<^sup>2 + b\<^sup>2 + c\<^sup>2"
    using planar_rotation[of c t a] by (simp add: add.commute)
  then show ?thesis by (simp add: fields magnitude_def spec_rotate_y_def)
qed

lemma magnitude_rotate_z: "magnitude (spec_rotate_z t v) = magnitude v"
proof (cases v)
  case (fields a b c)
  have "(a * cos t - b * sin t)\<^sup>2 + (a * sin t + b * cos t)\<^sup>2 + c\<^sup>2 = a\<^sup>2 + b\<^sup>2 + c\<^sup>2"
    using planar_rotation[of a t b] by simp
  then show ?thesis by (simp add: fields magnitude_def spec_rotate_z_def)
qed

lemma magnitude_rotate: "magnitude (spec_rotate v e) = magnitude v"
  by (cases e)
    (simp add: spec_rotate_def magnitude_rotate_x magnitude_rotate_y magnitude_rotate_z)

lemma magnitude_normalized:
  assumes "magnitude v \<noteq> 0"
  shows "magnitude (spec_normalized v) = 1"
proof (cases v)
  case (fields a b c)
  define m where "m = magnitude v"
  have m2: "m\<^sup>2 = a\<^sup>2 + b\<^sup>2 + c\<^sup>2"
    by (simp add: m_def fields magnitude_def)
  have m0: "m \<noteq> 0" using assms by (simp add: m_def)
  have "(a / m)\<^sup>2 + (b / m)\<^sup>2 + (c / m)\<^sup>2 = (a\<^sup>2 + b\<^sup>2 + c\<^sup>2) / m\<^sup>2"
    by (simp add: power_divide add_divide_distrib)
  also have "\<dots> = 1" using m0 by (simp add: m2[symmetric])
  finally have "sqrt ((a / m)\<^sup>2 + (b / m)\<^sup>2 + (c / m)\<^sup>2) = 1" by simp
  then have "magnitude (a / m, b / m, c / m) = 1" by (simp add: magnitude_def)
  moreover have "spec_normalized v = (a / m, b / m, c / m)"
    unfolding m_def by (simp add: spec_normalized_def fields)
  ultimately show ?thesis by simp
qed

lemma magnitude_nonzero:
  assumes "c \<noteq> 0"
  shows "magnitude (a, b, c) \<noteq> 0"
proof -
  have "0 < c\<^sup>2" using assms by simp
  moreover have "0 \<le> a\<^sup>2 + b\<^sup>2" by simp
  ultimately have "0 < a\<^sup>2 + b\<^sup>2 + c\<^sup>2" by linarith
  then show ?thesis by (simp add: magnitude_def)
qed

lemma pixel_ray_dir_unit:
  assumes "pixel_ray_dir spec_vectors scene su s screen_y x = Inr d"
    and "focal_length su \<noteq> 0"
  shows "magnitude d = 1"
proof -
  from assms(1) obtain a b where
    d: "d = spec_normalized (spec_rotate (of_rat a, of_rat b, of_rat (- focal_length su))
          (camera_rotation_euler scene))"
    by (auto simp: pixel_ray_dir_def bind_err_def Let_def spec_vectors_def split: sum.splits)
  have "(of_rat (- focal_length su) :: real) \<noteq> 0" using assms(2) by simp
  then have "magnitude (of_rat a, of_rat b, of_rat (- focal_length su)) \<noteq> 0"
    by (rule magnitude_nonzero)
  then show ?thesis unfolding d by (intro magnitude_normalized) (simp add: magnitude_rotate)
qed

lemma pixel_body_directions:
  assumes "pixel_body mu scene su s y screen_y x st = (r, st')"
    and "\<And>s screen_y x d. pixel_ray_dir mu scene su s screen_y x = Inr d \<Longrightarrow> Q d"
    and "list_all (\<lambda>q. Q (snd q)) (queries st)"
  shows "list_all (\<lambda>q. Q (snd q)) (queries st')"
proof (cases "pixel_ray_dir mu scene su s screen_y x")
  case (Inl e)
  with assms(1,3) show ?thesis by (simp add: pixel_body_def)
next
  case (Inr d)
  from assms(2)[OF Inr] have "Q d" .
  with assms(1,3) Inr show ?thesis
    by (auto simp: pixel_body_def Let_def split: sum.splits)
qed

lemma render_directions:
  assumes "render_samples k mu scene = Some (res, qs)"
    and "render_setup k scene = Some (Inr su)"
    and dir: "\<And>s screen_y x d. pixel_ray_dir mu scene su s screen_y x = Inr d \<Longrightarrow> Q d"
  shows "list_all (\<lambda>q. Q (snd q)) qs"
proof -
  let ?P = "\<lambda>st. list_all (\<lambda>q. Q (snd q)) (queries st)"
  define st0 :: "'a render_state"
    where "st0 = \<lparr>rect = replicate (nat (size_x su * size_y su)) [0, 0, 0, 1], queries = []\<rparr>"
  obtain e st where l: "for_loop (sample_body mu scene su) (py_range (int k)) st0 = (e, st)"
    by (cases "for_loop (sample_body mu scene su) (py_range (int k)) st0")
  have pixel: "?P t'" if "pixel_body mu scene su s y sy x t = (r', t')" and "?P t"
    for s y sy x t r' t'
    using that(1) dir that(2) by (rule pixel_body_directions)
  have row: "?P t'" if "row_body mu scene su s y t = (r', t')" and "?P t" for s y t r' t'
  proof (cases "row_screen_y su y")
    case (Inl e)
    with that show ?thesis by (simp add: row_body_def)
  next
    case (Inr sy)
    with that(1)
    have "for_loop (pixel_body mu scene su s y sy) (py_range (size_x su)) t = (r', t')"
      by (simp add: row_body_def)
    then show ?thesis using that(2)
      by (rule for_loop_invariant) (rule pixel)
  qed
  have sample: "?P t'" if "sample_body mu scene su s t = (r', t')" and "?P t" for s t r' t'
    using that unfolding sample_body_def by (rule for_loop_invariant) (rule row)
  have "?P st0" by (simp add: st0_def)
  with l have "?P st" by (rule for_loop_invariant) (rule sample)
  moreover have "qs = queries st"
    using assms(1,2) l by (cases e) (simp_all add: render_samples_def Let_def st0_def)
  ultimately show ?thesis by simp
qed

subsection \<open>Running the model on concrete inputs\<close>

text \<open>
  Rules for evaluating the model with the simplifier. The congruence rules make it evaluate
  the first computation of a sequence before it looks at the rest, and rounding is unfolded
  on numerals only.
\<close>

lemma bind_err_simps:
  "bind_err (Inl e) f = Inl e"
  "bind_err (Inr v) f = f v"
  by (simp_all add: bind_err_def)

lemma bind_err_weak_cong: "m = m' \<Longrightarrow> bind_err m f = bind_err m' f"
  by simp

lemma bind_run_simps:
  "bind_run None g = None"
  "bind_run (Some (Inl e)) g = Some (Inl e)"
  "bind_run (Some (Inr v)) g = g v"
  by (simp_all add: bind_run_def)

lemma bind_run_weak_cong: "m = m' \<Longrightarrow> bind_run m g = bind_run m' g"
  by simp

lemmas rnd_numeral_simps =
  rnd_zero
  rnd_def [of 1]
  rnd_def [of "- 1"]
  rnd_def [of "numeral a"]
  rnd_def [of "- numeral a"]
  rnd_def [of "1 / numeral b"]
  rnd_def [of "- (1 / numeral b)"]
  rnd_def [of "numeral a / numeral b"]
  rnd_def [of "- (numeral a / numeral b)"]
  for a b

lemmas overflows_numeral_simps =
  overflows_def [of 0]
  overflows_def [of 1]
  overflows_def [of "- 1"]
  overflows_def [of "numeral a"]
  overflows_def [of "- numeral a"]
  overflows_def [of "1 / numeral b"]
  overflows_def [of "- (1 / numeral b)"]
  overflows_def [of "numeral a / numeral b"]
  overflows_def [of "- (numeral a / numeral b)"]
  for a b

lemma list_numeral_simps:
  "replicate (numeral k) x = x # replicate (pred_numeral k) x"
  "(y # ys)[numeral k := x] = y # ys[pred_numeral k := x]"
  "(y # ys)[Suc n := x] = y # ys[n := x]"
  "(y # ys)[0 := x] = x # ys"
  by (simp_all add: numeral_eq_Suc)

lemmas rounding_eval = rnd_numeral_simps overflows_numeral_simps binade_def ulp_def
  round_half_even_def Let_def bitlen_numeral_simps floor_rat_numeral_simps

lemmas python_eval = bind_err_simps bind_run_simps int_truediv_def float_of_int_def
  float_truediv_def float_div_int_def int_sub_float_def py_int_def list_index_def list_getitem_def
  list_setitem_def py_range_def upt_rec list_numeral_simps rounding_eval

lemmas corput_eval = corput_def corput_exact_def corput_with_def corput_loop.simps python_eval

lemmas render_eval = render_def render_samples_def render_setup_def render_dims_def
  scaled_size_def sample_body_def row_body_def row_screen_y_def pixel_body_def
  pixel_ray_dir_def pixel_of_color_def RT_trace_ray_flag ray_cast_def ray_of_pixel_def
  pixel_hit_def
  corput_eval

lemmas eval_cong = bind_err_weak_cong bind_run_weak_cong let_weak_cong
  sum.case_cong_weak option.case_cong_weak prod.case_cong_weak

section \<open>Properties of the sequence generator\<close>

text \<open>
  C1 (as amended). For every \<open>n \<ge> 0\<close> and base \<open>b \<ge> 2\<close>, the loop of \<^verbatim>\<open>corput\<close> run in exact
  arithmetic returns the Van der Corput digit-reversal value minus \<open>0.5\<close>, and the binary64
  result of \<^verbatim>\<open>corput(n, b)\<close> is that same value whenever no rounding takes place, namely for
  \<open>n = 0\<close> and for base \<open>2\<close> with \<open>n < 2\<^sup>5\<^sup>3\<close>. For every base and \<open>n < 2\<^sup>2\<^sup>4\<close> the binary64 result
  plus \<open>0.5\<close> differs from the digit-reversal value by at most \<open>25 / 2\<^sup>5\<^sup>3\<close>.
\<close>

theorem corput_digit_reversal:
  assumes "0 \<le> n" and "2 \<le> b"
  shows "corput_exact n b = Some (Inr (vdc n b - 1 / 2)) \<and>
    (n = 0 \<or> b = 2 \<and> n < 2 ^ 53 \<longrightarrow> corput n b = Some (Inr (vdc n b - 1 / 2))) \<and>
    (n < 2 ^ 24 \<longrightarrow>
      (\<exists>v. corput n b = Some (Inr v) \<and> \<bar>v + 1 / 2 - vdc n b\<bar> \<le> 25 / 2 ^ 53))"
proof -
  have "corput n b = Some (Inr (vdc n b - 1 / 2))" if "n = 0 \<or> b = 2 \<and> n < 2 ^ 53"
    using that assms(1) corput_base2_exact[of n] by (auto simp: corput_zero vdc_zero)
  moreover have "\<exists>v. corput n b = Some (Inr v) \<and> \<bar>v + 1 / 2 - vdc n b\<bar> \<le> 25 / 2 ^ 53"
    if "n < 2 ^ 24"
    using corput_small_index[OF assms(1) that assms(2)] by blast
  ultimately show ?thesis using corput_exact_value[OF assms] by blast
qed

theorem corput_digit_reversal_witness:
  "(0::int) \<le> 6 \<and> (2::int) \<le> 2 \<and> vdc 6 2 = 3 / 8 \<and>
   corput_exact 6 2 = Some (Inr (vdc 6 2 - 1 / 2)) \<and> corput 6 2 = Some (Inr (vdc 6 2 - 1 / 2)) \<and>
   (\<exists>v. corput 6 2 = Some (Inr v) \<and> \<bar>v + 1 / 2 - vdc 6 2\<bar> \<le> 25 / 2 ^ 53)"
proof -
  have "vdc 6 2 = 3 / 8" by code_simp
  then show ?thesis using corput_digit_reversal[of 6 2] by simp
qed

text \<open>
  The claim C1 as it is stated fails in binary64: \<^verbatim>\<open>corput(1, 3)\<close> is the double nearest to
  \<open>1/3\<close> minus \<open>0.5\<close>, and adding \<open>0.5\<close> back (exactly or as a float) does not give \<open>1/3\<close>.
\<close>

theorem corput_one_third_counterexample:
  "corput 1 3 = Some (Inr (- (3002399751580331 / 18014398509481984))) \<and>
   vdc 1 3 = 1 / 3 \<and>
   - (3002399751580331 / 18014398509481984) + 1 / 2 \<noteq> vdc 1 3 \<and>
   rnd (- (3002399751580331 / 18014398509481984) + 1 / 2) \<noteq> vdc 1 3"
proof -
  have a: "corput 1 3 = Some (Inr (- (3002399751580331 / 18014398509481984)))"
    by (simp add: corput_eval cong: eval_cong)
  have b: "vdc 1 3 = 1 / 3" by code_simp
  have c: "rnd (- (3002399751580331 / 18014398509481984) + 1 / 2) \<noteq> 1 / 3"
    by (simp add: rounding_eval)
  show ?thesis unfolding b using a c by simp
qed

text \<open>
  C2 (as amended). For every \<open>n \<ge> 0\<close> and base \<open>b \<ge> 2\<close>, \<^verbatim>\<open>corput(n, b)\<close> returns a float that
  is at least \<open>-0.5\<close>; it is strictly below \<open>0.5\<close> whenever \<open>n < 2\<^sup>2\<^sup>4\<close> or no rounding takes place
  (\<open>n = 0\<close>, or base \<open>2\<close> with \<open>n < 2\<^sup>5\<^sup>3\<close>), and the value computed in exact arithmetic always
  lies in \<open>[-0.5, 0.5)\<close>.
\<close>

theorem corput_range:
  assumes "0 \<le> n" and "2 \<le> b"
  shows "(\<exists>v. corput n b = Some (Inr v) \<and> - (1 / 2) \<le> v \<and>
            (n < 2 ^ 24 \<or> b = 2 \<and> n < 2 ^ 53 \<longrightarrow> v < 1 / 2)) \<and>
         (\<exists>w. corput_exact n b = Some (Inr w) \<and> - (1 / 2) \<le> w \<and> w < 1 / 2)"
proof -
  note vb = vdc_bounds[OF assms]
  from corput_returns[OF assms]
  obtain v where v: "corput n b = Some (Inr v)" "- (1 / 2) \<le> v" by blast
  have "v < 1 / 2" if "n < 2 ^ 24 \<or> b = 2 \<and> n < 2 ^ 53"
  proof (cases "n < 2 ^ 24")
    case True
    from corput_small_index[OF assms(1) True assms(2)] v(1) show ?thesis by auto
  next
    case False
    with that have "b = 2" and "n < 2 ^ 53" by simp_all
    then have "corput n b = Some (Inr (vdc n b - 1 / 2))"
      using assms(1) corput_base2_exact[of n] by simp
    with v(1) have "v = vdc n b - 1 / 2" by simp
    with vb show ?thesis by simp
  qed
  with v have A: "\<exists>v. corput n b = Some (Inr v) \<and> - (1 / 2) \<le> v \<and>
            (n < 2 ^ 24 \<or> b = 2 \<and> n < 2 ^ 53 \<longrightarrow> v < 1 / 2)" by blast
  have "- (1 / 2) \<le> vdc n b - 1 / 2 \<and> vdc n b - 1 / 2 < 1 / 2" using vb by simp
  with corput_exact_value[OF assms]
  have B: "\<exists>w. corput_exact n b = Some (Inr w) \<and> - (1 / 2) \<le> w \<and> w < 1 / 2" by blast
  from A B show ?thesis by blast
qed

theorem corput_range_witness:
  "(0::int) \<le> 6 \<and> (2::int) \<le> 2 \<and>
   (\<exists>v. corput 6 2 = Some (Inr v) \<and> - (1 / 2) \<le> v \<and> v < 1 / 2) \<and>
   (\<exists>w. corput_exact 6 2 = Some (Inr w) \<and> - (1 / 2) \<le> w \<and> w < 1 / 2)"
  using corput_range[of 6 2] by simp

text \<open>
  The claim C2 as it is stated fails in binary64: for \<open>n = 2\<^sup>5\<^sup>4 - 1\<close> and base \<open>2\<^sup>5\<^sup>4\<close> the loop
  runs once, the quotient \<open>(2\<^sup>5\<^sup>4 - 1) / 2\<^sup>5\<^sup>4\<close> rounds to \<open>1.0\<close>, and \<^verbatim>\<open>corput\<close> returns
  exactly \<open>0.5\<close>, which is not strictly below \<open>0.5\<close>.
\<close>

theorem corput_reaches_half_counterexample:
  "corput (2 ^ 54 - 1) (2 ^ 54) = Some (Inr (1 / 2)) \<and> \<not> ((1 / 2 :: rat) < 1 / 2)"
  by (simp add: corput_eval cong: eval_cong)

text \<open>
  The same happens in base \<open>2\<close>, the base the renderer uses for the horizontal jitter, and
  with accumulated rounding the result can even exceed \<open>0.5\<close>.
\<close>

lemma corput_reaches_half_base2: "corput (2 ^ 54 - 1) 2 = Some (Inr (1 / 2))"
  by (simp add: corput_eval cong: eval_cong)

lemma corput_exceeds_half: "corput (184078 ^ 4 - 1) 184078 = Some (Inr (1 / 2 + 1 / 2 ^ 52))"
  by (simp add: corput_eval cong: eval_cong)

text \<open>
  C3. For every base \<open>b \<ge> 2\<close>, \<^verbatim>\<open>corput(0, b)\<close> is exactly \<open>-0.5\<close>: the loop body does not run
  and \<open>0 - 0.5\<close> is a binary64 number.
\<close>

theorem corput_zero_index:
  assumes "2 \<le> b"
  shows "corput 0 b = Some (Inr (- (1 / 2)))"
  by (rule corput_zero)

theorem corput_zero_index_witness:
  "(2::int) \<le> 3 \<and> corput 0 3 = Some (Inr (- (1 / 2)))"
  using corput_zero_index[of 3] by simp

text \<open>
  C10. \<^verbatim>\<open>corput\<close> terminates (and returns a float) for every \<open>n \<ge> 0\<close> and base \<open>b \<ge> 2\<close>: the
  loop variable strictly decreases under division by \<open>b\<close> and stays non-negative. With base
  \<open>1\<close> and \<open>n > 0\<close> the loop never terminates.
\<close>

theorem corput_terminates:
  "(0 \<le> n \<and> 2 \<le> b \<longrightarrow> (\<exists>v. corput n b = Some (Inr v))) \<and>
   (0 < n \<and> 2 \<le> b \<longrightarrow> 0 \<le> n div b \<and> n div b < n) \<and>
   (0 < n \<longrightarrow> corput n 1 = None)"
proof (intro conjI impI)
  assume "0 \<le> n \<and> 2 \<le> b"
  then show "\<exists>v. corput n b = Some (Inr v)" using corput_returns[of n b] by blast
next
  assume "0 < n \<and> 2 \<le> b"
  then show "0 \<le> n div b" and "n div b < n"
    by (simp_all add: pos_imp_zdiv_nonneg_iff int_div_less_self)
next
  assume "0 < n"
  then show "corput n 1 = None" by (rule corput_base1_diverges)
qed

theorem corput_terminates_witness:
  "(\<exists>v. corput 5 3 = Some (Inr v)) \<and> (5::int) div 3 < 5 \<and> corput 5 1 = None"
  using corput_terminates[of 5 3] by simp

section \<open>Properties of the shading rule and of the render loop\<close>

text \<open>
  C4. The pixel stored for a ray depends only on the hit flag of the ray cast: opaque black
  \<open>(0, 0, 0, 1)\<close> when the flag is false, opaque pure red \<open>(1, 0, 0, 1)\<close> when it is true.
\<close>

theorem shading_rule:
  "pixel_of_color (RT_trace_ray scene orig dir) =
     (if fst (ray_cast scene orig dir) then [1, 0, 0, 1] else [0, 0, 0, 1])"
  by (simp add: RT_trace_ray_flag ray_cast_def pixel_of_color_def)

text \<open>
  C9. Two ray-cast results that agree on the hit flag are shaded alike, whatever their hit
  positions, normals and objects; and replacing the ray cast of a scene by one with the same
  hit flags changes neither the buffer nor the queries of \<^verbatim>\<open>render\<close>.
\<close>

theorem shading_noninterference:
  "(fst (ray_cast scene1 orig1 dir1) = fst (ray_cast scene2 orig2 dir2) \<longrightarrow>
      RT_trace_ray scene1 orig1 dir1 = RT_trace_ray scene2 orig2 dir2) \<and>
   ((\<forall>orig dir. fst (f orig dir) = fst (scene_ray_cast scene orig dir)) \<longrightarrow>
      render_samples k mu (scene\<lparr>scene_ray_cast := f\<rparr>) = render_samples k mu scene)"
proof (intro conjI impI)
  assume "fst (ray_cast scene1 orig1 dir1) = fst (ray_cast scene2 orig2 dir2)"
  then show "RT_trace_ray scene1 orig1 dir1 = RT_trace_ray scene2 orig2 dir2"
    by (simp add: RT_trace_ray_flag ray_cast_def)
next
  assume same: "\<forall>orig dir. fst (f orig dir) = fst (scene_ray_cast scene orig dir)"
  let ?scene' = "scene\<lparr>scene_ray_cast := f\<rparr>"
  have trace: "RT_trace_ray ?scene' orig dir = RT_trace_ray scene orig dir" for orig dir
    using same by (simp add: RT_trace_ray_flag)
  have ray: "pixel_ray_dir mu ?scene' = pixel_ray_dir mu scene"
    by (intro ext) (simp add: pixel_ray_dir_def)
  have pixel: "pixel_body mu ?scene' = pixel_body mu scene"
    by (intro ext) (simp add: pixel_body_def ray trace Let_def cong: sum.case_cong)
  have row: "row_body mu ?scene' = row_body mu scene"
    by (intro ext) (simp add: row_body_def pixel cong: sum.case_cong)
  have sample: "sample_body mu ?scene' = sample_body mu scene"
    by (intro ext) (simp add: sample_body_def row)
  have "render_setup k ?scene' = render_setup k scene"
    by (simp add: render_setup_def render_dims_def)
  then show "render_samples k mu ?scene' = render_samples k mu scene"
    by (simp add: render_samples_def sample cong: option.case_cong sum.case_cong)
qed

theorem shading_noninterference_witness:
  "fst (ray_cast (stub_scene 4 4 100 (\<lambda>d. True) 1) (0, 0, 0) (0, 0, - 1)) =
     fst (ray_cast (stub_scene 2 2 100 (\<lambda>d. fst d < 1) 7) (1, 1, 1) (0, 1, 0)) \<and>
   ray_cast (stub_scene 4 4 100 (\<lambda>d. True) 1) (0, 0, 0) (0, 0, - 1) \<noteq>
     ray_cast (stub_scene 2 2 100 (\<lambda>d. fst d < 1) 7) (1, 1, 1) (0, 1, 0) \<and>
   RT_trace_ray (stub_scene 4 4 100 (\<lambda>d. True) 1) (0, 0, 0) (0, 0, - 1) =
     RT_trace_ray (stub_scene 2 2 100 (\<lambda>d. fst d < 1) 7) (1, 1, 1) (0, 1, 0) \<and>
   render_samples 1 plain_vectors
       ((stub_scene 2 2 100 (\<lambda>d. True) 1)
          \<lparr>scene_ray_cast := (\<lambda>orig dir. (True, orig, orig, 5, 9, ()))\<rparr>) =
     render_samples 1 plain_vectors (stub_scene 2 2 100 (\<lambda>d. True) 1)"
proof -
  have a: "fst (ray_cast (stub_scene 4 4 100 (\<lambda>d. True) 1) (0, 0, 0) (0, 0, - 1)) =
     fst (ray_cast (stub_scene 2 2 100 (\<lambda>d. fst d < 1) 7) (1, 1, 1) (0, 1, 0))"
    by (simp add: ray_cast_def stub_scene_def)
  have b: "ray_cast (stub_scene 4 4 100 (\<lambda>d. True) 1) (0, 0, 0) (0, 0, - 1) \<noteq>
     ray_cast (stub_scene 2 2 100 (\<lambda>d. fst d < 1) 7) (1, 1, 1) (0, 1, 0)"
    by (simp add: ray_cast_def stub_scene_def)
  have c: "\<forall>orig dir. fst ((\<lambda>orig dir. (True, orig, orig, 5::int, 9::nat, ())) orig dir) =
      fst (scene_ray_cast (stub_scene 2 2 100 (\<lambda>d. True) 1) orig dir)"
    by (simp add: stub_scene_def)
  show ?thesis
    using a b c
      shading_noninterference[of "stub_scene 4 4 100 (\<lambda>d. True) 1" "(0, 0, 0)" "(0, 0, - 1)"
        "stub_scene 2 2 100 (\<lambda>d. fst d < 1) 7" "(1, 1, 1)" "(0, 1, 0)"
        "\<lambda>orig dir. (True, orig, orig, 5, 9, ())" "stub_scene 2 2 100 (\<lambda>d. True) 1"
        1 plain_vectors]
    by blast
qed

text \<open>
  C5. With the vector operations of the specification's camera model, every ray direction that
  the pixel loop produces for a camera with a positive focal length has magnitude \<open>1\<close>: for
  every pixel coordinate and every sample offset, the vector formed from
  \<open>screen_x + offset_x\<close>, \<open>screen_y + offset_y\<close> and \<open>- focal_length\<close>, rotated by the camera
  orientation and normalized, is a unit vector, and so is every direction that \<^verbatim>\<open>render\<close>
  passes to the scene query.
\<close>

theorem ray_direction_unit:
  assumes "0 < focal_length su"
  shows "(\<forall>d. pixel_ray_dir spec_vectors scene su s screen_y x = Inr d \<longrightarrow> magnitude d = 1) \<and>
    (\<forall>res qs. render_setup k scene = Some (Inr su) \<and>
        render_samples k spec_vectors scene = Some (res, qs) \<longrightarrow>
      list_all (\<lambda>q. magnitude (snd q) = 1) qs)"
proof -
  from assms have nz: "focal_length su \<noteq> 0" by simp
  show ?thesis
  proof (intro conjI allI impI)
    fix d
    assume "pixel_ray_dir spec_vectors scene su s screen_y x = Inr d"
    then show "magnitude d = 1" using nz by (rule pixel_ray_dir_unit)
  next
    fix res qs
    assume run: "render_setup k scene = Some (Inr su) \<and>
      render_samples k spec_vectors scene = Some (res, qs)"
    have "magnitude d = 1" if "pixel_ray_dir spec_vectors scene su s' sy x' = Inr d" for s' sy x' d
      using that nz by (rule pixel_ray_dir_unit)
    with run show "list_all (\<lambda>q. magnitude (snd q) = 1) qs"
      by (intro render_directions[of k spec_vectors scene res qs su]) simp_all
  qed
qed

theorem ray_direction_unit_witness:
  "render_setup 1 turned_scene = Some (Inr
     \<lparr>size_x = 4, size_y = 4, width = 4, height = 4, focal_length = 1 / 16, aspect_ratio = 1,
      corput_x = [- (1 / 8)], corput_y = [- (1 / 8)]\<rparr>) \<and>
   pixel_ray_dir spec_vectors turned_scene
     \<lparr>size_x = 4, size_y = 4, width = 4, height = 4, focal_length = 1 / 16, aspect_ratio = 1,
      corput_x = [- (1 / 8)], corput_y = [- (1 / 8)]\<rparr> 0 0 2 = Inr (2 / 3, - (2 / 3), - (1 / 3)) \<and>
   magnitude (2 / 3, - (2 / 3), - (1 / 3)) = 1 \<and>
   (\<exists>res qs. render_samples 1 spec_vectors turned_scene = Some (res, qs) \<and> length qs = 16 \<and>
      list_all (\<lambda>q. magnitude (snd q) = 1) qs)"
proof -
  define su0 where "su0 =
    \<lparr>size_x = 4, size_y = 4, width = 4, height = 4, focal_length = 1 / 16, aspect_ratio = 1,
     corput_x = [- (1 / 8)], corput_y = [- (1 / 8)]\<rparr>"
  have env: "render_setup 1 turned_scene = Some (Inr su0)"
    unfolding su0_def by (simp add: render_eval turned_scene_def cong: eval_cong)
  have f: "0 < focal_length su0" by (simp add: su0_def)
  have raw: "pixel_ray_dir spec_vectors turned_scene su0 0 0 2 =
      Inr (spec_normalized (spec_rotate (- (1 / 8), - (1 / 8), - (1 / 16)) (0, 0, pi / 2)))"
    unfolding su0_def
    by (simp add: render_eval turned_scene_def spec_vectors_def of_rat_divide of_rat_minus
        cong: eval_cong)
  have rot: "spec_rotate (- (1 / 8), - (1 / 8), - (1 / 16)) (0, 0, pi / 2) =
      (1 / 8, - (1 / 8), - (1 / 16))"
    by (simp add: spec_rotate_def spec_rotate_x_def spec_rotate_y_def spec_rotate_z_def)
  have "sqrt (9 / 256) = 3 / 16"
    by (rule real_sqrt_unique) (simp_all add: power2_eq_square)
  then have mag: "magnitude (1 / 8, - (1 / 8), - (1 / 16)) = 3 / 16"
    by (simp add: magnitude_def power2_eq_square)
  have norm: "spec_normalized (1 / 8, - (1 / 8), - (1 / 16)) = (2 / 3, - (2 / 3), - (1 / 3))"
    by (simp add: spec_normalized_def mag)
  have dir: "pixel_ray_dir spec_vectors turned_scene su0 0 0 2 = Inr (2 / 3, - (2 / 3), - (1 / 3))"
    unfolding raw rot norm ..
  have dims: "render_dims turned_scene = Inr (4, 4)"
    by (simp add: render_eval turned_scene_def cong: eval_cong)
  have sw: "camera_sensor_width turned_scene \<noteq> 0" by (simp add: turned_scene_def)
  have lt4: "(4::int) < 2 ^ 53" by simp
  from render_samples_returns[OF dims sw zero_less_numeral lt4 zero_less_numeral lt4, of 1 spec_vectors]
  obtain buf qs where run: "render_samples 1 spec_vectors turned_scene = Some (Inr buf, qs)"
    by blast
  then have run': "render spec_vectors turned_scene = Some (Inr buf, qs)" by (simp add: render_def)
  have len: "length qs = 16"
    using render_row_major(4)[OF env run', of 0 0] by (simp add: su0_def)
  note t = ray_direction_unit[OF f, of turned_scene 0 0 2 1]
  from t dir have unit: "magnitude (2 / 3, - (2 / 3), - (1 / 3)) = 1" by blast
  from t env run have "list_all (\<lambda>q. magnitude (snd q) = 1) qs" by blast
  with run len have "\<exists>res qs. render_samples 1 spec_vectors turned_scene = Some (res, qs) \<and>
      length qs = 16 \<and> list_all (\<lambda>q. magnitude (snd q) = 1) qs"
    by blast
  with env dir unit show ?thesis unfolding su0_def by blast
qed

text \<open>
  C6. For every resolution \<open>(w, h)\<close> with \<open>w > 0\<close> and \<open>h > 0\<close> and every sample count,
  \<^verbatim>\<open>render\<close> returns or raises; a buffer that it hands to the render result has exactly
  \<open>w * h\<close> pixels, each with alpha \<open>1.0\<close>; and it does hand over a buffer whenever the
  sensor width is not zero and \<open>w\<close> and \<open>h\<close> are below \<open>2\<^sup>5\<^sup>3\<close>.
\<close>

theorem render_frame_buffer:
  assumes "render_dims scene = Inr (w, h)" and "0 < w" and "0 < h"
  shows "\<exists>res qs. render_samples k mu scene = Some (res, qs) \<and>
    (\<forall>buf. res = Inr buf \<longrightarrow> length buf = nat (w * h) \<and> list_all opaque_pixel buf) \<and>
    (camera_sensor_width scene \<noteq> 0 \<and> w < 2 ^ 53 \<and> h < 2 ^ 53 \<longrightarrow> (\<exists>buf. res = Inr buf))"
proof -
  from render_samples_terminates[of k mu scene]
  obtain res qs where r: "render_samples k mu scene = Some (res, qs)" by blast
  have inv: "length buf = nat (w * h) \<and> list_all opaque_pixel buf" if "res = Inr buf" for buf
    using r that assms(1) by (intro render_samples_buffer[of k mu scene buf qs]) simp_all
  have "\<exists>buf. res = Inr buf"
    if "camera_sensor_width scene \<noteq> 0 \<and> w < 2 ^ 53 \<and> h < 2 ^ 53"
    using render_samples_returns[of scene w h k mu] that assms r by auto
  with r inv show ?thesis by blast
qed

theorem render_frame_buffer_witness:
  "render_dims (stub_scene 3 2 100 (\<lambda>d. fst d = 0) 0) = Inr (3, 2) \<and>
   (\<exists>buf qs. render_samples 1 plain_vectors (stub_scene 3 2 100 (\<lambda>d. fst d = 0) 0) =
        Some (Inr buf, qs) \<and>
      length buf = nat (3 * 2) \<and> list_all opaque_pixel buf)"
proof -
  let ?scene = "stub_scene 3 2 100 (\<lambda>d. fst d = 0) 0"
  have dims: "render_dims ?scene = Inr (3, 2)"
    by (simp add: render_eval stub_scene_def cong: eval_cong)
  have "\<exists>qs. render plain_vectors ?scene =
      Some (Inr [[0, 0, 0, 1], [0, 0, 0, 1], [1, 0, 0, 1], [0, 0, 0, 1], [0, 0, 0, 1], [1, 0, 0, 1]], qs)"
    by (simp add: render_eval stub_scene_def plain_vectors_def cong: eval_cong)
  then obtain buf qs0
    where run: "render_samples 1 plain_vectors ?scene = Some (Inr buf, qs0)"
    by (auto simp: render_def)
  from render_frame_buffer[of ?scene 3 2 1 plain_vectors, OF dims] run
  have "length buf = nat (3 * 2) \<and> list_all opaque_pixel buf" by auto
  with dims run show ?thesis by blast
qed

text \<open>
  A run at resolution \<open>(4, 4)\<close>, evaluated: the values computed before the loop are fixed
  (both jitter offsets are \<open>-0.5 / 4\<close>), and each of the 16 scene queries stores one pixel.
\<close>

lemma single_hit_buffer:
  assumes "render_dims scene = Inr (4, 4)" and "camera_sensor_width scene \<noteq> 0"
    and "\<And>su x y. render_setup 1 scene = Some (Inr su) \<Longrightarrow>
           0 \<le> x \<Longrightarrow> x < 4 \<Longrightarrow> 0 \<le> y \<Longrightarrow> y < 4 \<Longrightarrow>
           pixel_hit mu scene su 0 y x = (x = 2 \<and> y = 2)"
  shows "\<exists>qs. render mu scene =
      Some (Inr (replicate 10 [0, 0, 0, 1] @ [[1, 0, 0, 1]] @ replicate 5 [0, 0, 0, 1]), qs) \<and>
    length qs = 16"
proof -
  define su0 where "su0 =
    \<lparr>size_x = 4, size_y = 4, width = 4, height = 4,
     focal_length = rnd (camera_lens scene / camera_sensor_width scene), aspect_ratio = 1,
     corput_x = [- (1 / 8)], corput_y = [- (1 / 8)]\<rparr>"
  have env: "render_setup 1 scene = Some (Inr su0)"
    using assms(1,2)
    by (simp add: su0_def render_setup_def corput_def corput_with_def corput_loop.simps
        python_eval cong: eval_cong)
  note hit = assms(3)[OF env]
  have row0: "pixel_hit mu scene su0 0 0 0 = False" "pixel_hit mu scene su0 0 0 1 = False"
    "pixel_hit mu scene su0 0 0 2 = False" "pixel_hit mu scene su0 0 0 3 = False"
    using hit[of 0 0] hit[of 1 0] hit[of 2 0] hit[of 3 0] by simp_all
  have row1: "pixel_hit mu scene su0 0 1 0 = False" "pixel_hit mu scene su0 0 1 1 = False"
    "pixel_hit mu scene su0 0 1 2 = False" "pixel_hit mu scene su0 0 1 3 = False"
    using hit[of 0 1] hit[of 1 1] hit[of 2 1] hit[of 3 1] by simp_all
  have row2: "pixel_hit mu scene su0 0 2 0 = False" "pixel_hit mu scene su0 0 2 1 = False"
    "pixel_hit mu scene su0 0 2 2 = True" "pixel_hit mu scene su0 0 2 3 = False"
    using hit[of 0 2] hit[of 1 2] hit[of 2 2] hit[of 3 2] by simp_all
  have row3: "pixel_hit mu scene su0 0 3 0 = False" "pixel_hit mu scene su0 0 3 1 = False"
    "pixel_hit mu scene su0 0 3 2 = False" "pixel_hit mu scene su0 0 3 3 = False"
    using hit[of 0 3] hit[of 1 3] hit[of 2 3] hit[of 3 3] by simp_all
  have env': "render_setup (Suc 0) scene = Some (Inr su0)"
    using env by simp
  note rows = row0 row1 row2 row3
  note flags = rows
    [unfolded pixel_hit_def ray_of_pixel_def, simplified su0_def row_screen_y_def pixel_ray_dir_def
      ray_cast_def python_eval render_env.simps]
  show ?thesis
    using flags
    by (simp add: render_def render_samples_def env' su0_def sample_body_def row_body_def
        row_screen_y_def pixel_body_def pixel_ray_dir_def pixel_of_color_def RT_trace_ray_flag
        python_eval cong: eval_cong)
qed

text \<open>
  C7. With one sample the pixel of coordinate \<open>(x, y)\<close> is stored at the row-major index
  \<open>y * width + x\<close>: at every resolution \<open>(w, h)\<close> with \<open>0 < w, h < 2\<^sup>5\<^sup>3\<close> and a sensor width that is
  not zero, \<^verbatim>\<open>render\<close> makes \<open>w * h\<close> scene queries and hands over a buffer of \<open>w * h\<close> pixels;
  query number \<open>y * w + x\<close> is the ray of pixel \<open>(x, y)\<close>, and the buffer holds at \<open>y * w + x\<close> the
  pixel \<open>(1, 0, 0, 1)\<close> when that ray hits and \<open>(0, 0, 0, 1)\<close> when it does not. At resolution
  \<open>(4, 4)\<close>, when the scene query reports a hit exactly for the ray of pixel \<open>(x, y) = (2, 2)\<close>,
  the buffer therefore has \<open>(1, 0, 0, 1)\<close> at index \<open>10 = 2 * 4 + 2\<close> and \<open>(0, 0, 0, 1)\<close> at the
  15 other indices.
\<close>

theorem render_single_hit:
  assumes "render_dims scene = Inr (w, h)" and "camera_sensor_width scene \<noteq> 0"
    and "0 < w" and "w < 2 ^ 53" and "0 < h" and "h < 2 ^ 53"
  shows "\<exists>su buf qs. render_setup 1 scene = Some (Inr su) \<and>
    render mu scene = Some (Inr buf, qs) \<and>
    length buf = nat (w * h) \<and> length qs = nat (w * h) \<and>
    (\<forall>x y. 0 \<le> x \<and> x < w \<and> 0 \<le> y \<and> y < h \<longrightarrow>
       ray_of_pixel mu scene su 0 y x = Inr (snd (qs ! nat (y * w + x))) \<and>
       buf ! nat (y * w + x) =
         (if pixel_hit mu scene su 0 y x then [1, 0, 0, 1] else [0, 0, 0, 1])) \<and>
    (w = 4 \<and> h = 4 \<and>
     (\<forall>x y. 0 \<le> x \<and> x < 4 \<and> 0 \<le> y \<and> y < 4 \<longrightarrow>
        pixel_hit mu scene su 0 y x = (x = 2 \<and> y = 2)) \<longrightarrow>
     buf = replicate 10 [0, 0, 0, 1] @ [[1, 0, 0, 1]] @ replicate 5 [0, 0, 0, 1])"
proof -
  from render_setup_returns[OF assms]
  obtain su where env: "render_setup 1 scene = Some (Inr su)" by blast
  from render_setup_fields[OF env] assms(1)
  have f: "size_x su = w" "size_y su = h" by simp_all
  from render_samples_returns[OF assms, of 1 mu]
  obtain buf qs where run: "render mu scene = Some (Inr buf, qs)"
    unfolding render_def by blast
  from run assms(1) have len: "length buf = nat (w * h)"
    unfolding render_def by (rule render_samples_buffer[THEN conjunct1])
  have px: "ray_of_pixel mu scene su 0 y x = Inr (snd (qs ! nat (y * w + x))) \<and>
      buf ! nat (y * w + x) =
        (if pixel_hit mu scene su 0 y x then [1, 0, 0, 1] else [0, 0, 0, 1])"
    if "0 \<le> x \<and> x < w \<and> 0 \<le> y \<and> y < h" for x y
    using render_row_major(1,2)[OF env run, of x y] that unfolding f by blast
  have "length qs = nat (w * h)"
    using render_row_major(4)[OF env run, of 0 0] assms(3,5) unfolding f by simp
  moreover have "buf = replicate 10 [0, 0, 0, 1] @ [[1, 0, 0, 1]] @ replicate 5 [0, 0, 0, 1]"
    if c: "w = 4 \<and> h = 4 \<and>
      (\<forall>x y. 0 \<le> x \<and> x < 4 \<and> 0 \<le> y \<and> y < 4 \<longrightarrow>
         pixel_hit mu scene su 0 y x = (x = 2 \<and> y = 2))"
  proof -
    from c assms(1) have dims: "render_dims scene = Inr (4, 4)" by simp
    have "pixel_hit mu scene su' 0 y x = (x = 2 \<and> y = 2)"
      if "render_setup 1 scene = Some (Inr su')" and "0 \<le> x" and "x < 4" and "0 \<le> y" and "y < 4"
      for su' x y
      using that c env by simp
    from single_hit_buffer[OF dims assms(2) this] run show ?thesis by auto
  qed
  ultimately show ?thesis using env run len px by blast
qed

theorem render_single_hit_witness:
  "render_dims (stub_scene 4 4 100 (\<lambda>d. fst d = - (1 / 8) \<and> fst (snd d) = - (1 / 8)) 0) = Inr (4, 4) \<and>
   (\<exists>qs. render plain_vectors
           (stub_scene 4 4 100 (\<lambda>d. fst d = - (1 / 8) \<and> fst (snd d) = - (1 / 8)) 0) =
      Some (Inr (replicate 10 [0, 0, 0, 1] @ [[1, 0, 0, 1]] @ replicate 5 [0, 0, 0, 1]), qs) \<and>
    length qs = 16) \<and>
   render_dims (stub_scene 3 2 100 (\<lambda>d. fst d = 0) 0) = Inr (3, 2) \<and>
   (\<exists>buf qs. render plain_vectors (stub_scene 3 2 100 (\<lambda>d. fst d = 0) 0) = Some (Inr buf, qs) \<and>
      length buf = 6 \<and> length qs = 6 \<and> buf ! 2 = [1, 0, 0, 1] \<and> buf ! 4 = [0, 0, 0, 1])"
proof -
  let ?A = "stub_scene 4 4 100 (\<lambda>d. fst d = - (1 / 8) \<and> fst (snd d) = - (1 / 8)) 0"
  let ?B = "stub_scene 3 2 100 (\<lambda>d. fst d = 0) 0"
  have dimsA: "render_dims ?A = Inr (4, 4)"
    by (simp add: render_eval stub_scene_def cong: eval_cong)
  have swA: "camera_sensor_width ?A \<noteq> 0"
    by (simp add: stub_scene_def)
  have envA: "render_setup 1 ?A = Some (Inr
      \<lparr>size_x = 4, size_y = 4, width = 4, height = 4,
       focal_length = 3127499741229511 / 2251799813685248, aspect_ratio = 1,
       corput_x = [- (1 / 8)], corput_y = [- (1 / 8)]\<rparr>)"
    by (simp add: render_eval stub_scene_def cong: eval_cong)
  have stub: "pixel_hit plain_vectors ?A su 0 y x = (x = 2 \<and> y = 2)"
    if "render_setup 1 ?A = Some (Inr su)" and "0 \<le> x \<and> x < 4 \<and> 0 \<le> y \<and> y < 4"
    for su x y
  proof -
    from that(1) envA have su: "su =
      \<lparr>size_x = 4, size_y = 4, width = 4, height = 4,
       focal_length = 3127499741229511 / 2251799813685248, aspect_ratio = 1,
       corput_x = [- (1 / 8)], corput_y = [- (1 / 8)]\<rparr>"
      by simp
    have x: "x = 0 \<or> x = 1 \<or> x = 2 \<or> x = 3" using that(2) by arith
    have y: "y = 0 \<or> y = 1 \<or> y = 2 \<or> y = 3" using that(2) by arith
    show ?thesis
      using x y unfolding su
      by (elim disjE) (simp_all add: render_eval stub_scene_def plain_vectors_def cong: eval_cong)
  qed
  have lt4: "(4::int) < 2 ^ 53" and lt3: "(3::int) < 2 ^ 53" and lt2: "(2::int) < 2 ^ 53"
    by simp_all
  from render_single_hit[of ?A 4 4 plain_vectors,
      OF dimsA swA zero_less_numeral lt4 zero_less_numeral lt4]
  obtain su buf qs where a: "render_setup 1 ?A = Some (Inr su)"
    "render plain_vectors ?A = Some (Inr buf, qs)" "length qs = nat (4 * 4)"
    "(4::int) = 4 \<and> (4::int) = 4 \<and>
     (\<forall>x y. 0 \<le> x \<and> x < 4 \<and> 0 \<le> y \<and> y < 4 \<longrightarrow>
        pixel_hit plain_vectors ?A su 0 y x = (x = 2 \<and> y = 2)) \<longrightarrow>
     buf = replicate 10 [0, 0, 0, 1] @ [[1, 0, 0, 1]] @ replicate 5 [0, 0, 0, 1]"
    by blast
  from a(4) stub[OF a(1)]
  have "buf = replicate 10 [0, 0, 0, 1] @ [[1, 0, 0, 1]] @ replicate 5 [0, 0, 0, 1]" by blast
  with a(2,3) have A: "\<exists>qs. render plain_vectors ?A =
      Some (Inr (replicate 10 [0, 0, 0, 1] @ [[1, 0, 0, 1]] @ replicate 5 [0, 0, 0, 1]), qs) \<and>
    length qs = 16"
    by simp
  have dimsB: "render_dims ?B = Inr (3, 2)"
    by (simp add: render_eval stub_scene_def cong: eval_cong)
  have swB: "camera_sensor_width ?B \<noteq> 0"
    by (simp add: stub_scene_def)
  have envB: "render_setup 1 ?B = Some (Inr
      \<lparr>size_x = 3, size_y = 2, width = 3, height = 2,
       focal_length = 3127499741229511 / 2251799813685248,
       aspect_ratio = 6004799503160661 / 9007199254740992,
       corput_x = [- (6004799503160661 / 36028797018963968)],
       corput_y = [- (6004799503160661 / 36028797018963968)]\<rparr>)"
    by (simp add: render_eval stub_scene_def cong: eval_cong)
  from render_single_hit[of ?B 3 2 plain_vectors,
      OF dimsB swB zero_less_numeral lt3 zero_less_numeral lt2]
  obtain su' buf' qs' where b: "render_setup 1 ?B = Some (Inr su')"
    "render plain_vectors ?B = Some (Inr buf', qs')"
    "length buf' = nat (3 * 2)" "length qs' = nat (3 * 2)"
    "\<forall>x y. 0 \<le> x \<and> x < 3 \<and> 0 \<le> y \<and> y < 2 \<longrightarrow>
       buf' ! nat (y * 3 + x) =
         (if pixel_hit plain_vectors ?B su' 0 y x then [1, 0, 0, 1] else [0, 0, 0, 1])"
    by blast
  from b(1) envB have su': "su' =
      \<lparr>size_x = 3, size_y = 2, width = 3, height = 2,
       focal_length = 3127499741229511 / 2251799813685248,
       aspect_ratio = 6004799503160661 / 9007199254740992,
       corput_x = [- (6004799503160661 / 36028797018963968)],
       corput_y = [- (6004799503160661 / 36028797018963968)]\<rparr>"
    by simp
  have h02: "pixel_hit plain_vectors ?B su' 0 0 2"
    unfolding su' by (simp add: render_eval stub_scene_def plain_vectors_def cong: eval_cong)
  have h11: "\<not> pixel_hit plain_vectors ?B su' 0 1 1"
    unfolding su' by (simp add: render_eval stub_scene_def plain_vectors_def cong: eval_cong)
  from b(5)[rule_format, of 2 0] h02 have "buf' ! 2 = [1, 0, 0, 1]" by simp
  moreover from b(5)[rule_format, of 1 1] h11 have "buf' ! 4 = [0, 0, 0, 1]" by simp
  ultimately have B: "\<exists>buf qs. render plain_vectors ?B = Some (Inr buf, qs) \<and>
      length buf = 6 \<and> length qs = 6 \<and> buf ! 2 = [1, 0, 0, 1] \<and> buf ! 4 = [0, 0, 0, 1]"
    using b(2,3,4) by simp
  from dimsA A dimsB B show ?thesis by blast
qed

text \<open>
  C8 (as amended). When the width or the height is \<open>0\<close>, \<^verbatim>\<open>render\<close> fails before the pixel
  loop with Python's \<^verbatim>\<open>ZeroDivisionError\<close> (raised by \<^verbatim>\<open>height / width\<close> or
  \<^verbatim>\<open>aspect_ratio / height\<close>; the program has no resolution check and no error of its own)
  and makes no scene query. More generally, no run with a width or a height \<open>\<le> 0\<close> makes a
  scene query, but with a negative width or height \<^verbatim>\<open>render\<close> need not fail.
\<close>

theorem render_zero_resolution:
  assumes "render_dims scene = Inr (w, h)"
  shows "(w = 0 \<or> h = 0 \<longrightarrow> render_samples k mu scene = Some (Inl ZeroDivisionError, [])) \<and>
    (w \<le> 0 \<or> h \<le> 0 \<longrightarrow> (\<exists>res. render_samples k mu scene = Some (res, [])))"
proof (intro conjI impI)
  assume "w = 0 \<or> h = 0"
  with assms have "render_setup k scene = Some (Inl ZeroDivisionError)"
    by (rule render_setup_zero_size)
  then show "render_samples k mu scene = Some (Inl ZeroDivisionError, [])"
    by (simp add: render_samples_def)
next
  assume "w \<le> 0 \<or> h \<le> 0"
  with assms show "\<exists>res. render_samples k mu scene = Some (res, [])"
    by (rule render_samples_no_queries)
qed

theorem render_zero_resolution_witness:
  "render_dims (stub_scene 4 4 1 (\<lambda>d. True) 0) = Inr (0, 0) \<and>
   render_samples 1 plain_vectors (stub_scene 4 4 1 (\<lambda>d. True) 0) =
     Some (Inl ZeroDivisionError, [])"
proof -
  have dims: "render_dims (stub_scene 4 4 1 (\<lambda>d. True) 0) = Inr (0, 0)"
    by (simp add: render_eval stub_scene_def cong: eval_cong)
  from render_zero_resolution[OF dims, of 1 plain_vectors] dims show ?thesis by simp
qed

text \<open>
  The claim C8 as it is stated fails: at resolution \<open>4 \<times> 4\<close> and 1 percent the width and the
  height are \<open>0\<close> and the run ends with \<^verbatim>\<open>ZeroDivisionError\<close>, the only error a zero size
  leads to; and with the negative width \<open>-4\<close> the run does not fail at all, it hands over an
  empty buffer.
\<close>

theorem render_invalid_resolution_counterexample:
  "render_dims (stub_scene 4 4 1 (\<lambda>d. True) 0) = Inr (0, 0) \<and>
   render plain_vectors (stub_scene 4 4 1 (\<lambda>d. True) 0) = Some (Inl ZeroDivisionError, []) \<and>
   render_dims (stub_scene (- 4) 4 100 (\<lambda>d. True) 0) = Inr (- 4, 4) \<and>
   render plain_vectors (stub_scene (- 4) 4 100 (\<lambda>d. True) 0) = Some (Inr [], [])"
  by (simp add: render_eval stub_scene_def plain_vectors_def cong: eval_cong)


end
